theory Spec2Isabelle
  imports Main "HOL-Library.Monad_Syntax" "HOL-Library.Char_ord" "HOL-Library.List_Lexorder"
begin

section \<open>Memory blocks and the C primitives used by WString.cpp\<close>

text \<open>
  A memory block is the list of the bytes that are addressable from its base address.
  Every access is checked against the block: an access outside of it (undefined behaviour
  in C++) is the value \<open>None\<close>, and so is the dereference of a null pointer. The functions
  of the String class below therefore return an \<open>option\<close>: \<open>None\<close> means that the C++
  code leaves the memory it owns, \<open>Some\<close> carries what the C++ function returns together
  with the updated object. The pointers a caller passes in (\<open>cstr\<close>, \<open>pstr\<close>, \<open>find\<close>,
  \<open>replace\<close>, \<open>characters\<close>) address blocks of their own; the one place where the code reads
  its own buffer as a source, the self-concatenation, is modelled as such.
\<close>

type_synonym block = "char list"

abbreviation NUL :: char where
  "NUL \<equiv> CHR 0x00"

definition rd :: "block \<Rightarrow> nat \<Rightarrow> char option" where
  "rd b i = (if i < length b then Some (b ! i) else None)"

definition rdn :: "block \<Rightarrow> nat \<Rightarrow> nat \<Rightarrow> block option" where
  "rdn b off n = (if off + n \<le> length b then Some (take n (drop off b)) else None)"

definition wr :: "block \<Rightarrow> nat \<Rightarrow> char \<Rightarrow> block option" where
  "wr b i c = (if i < length b then Some (b[i := c]) else None)"

definition wrn :: "block \<Rightarrow> nat \<Rightarrow> block \<Rightarrow> block option" where
  "wrn b off xs =
     (if off + length xs \<le> length b then Some (take off b @ xs @ drop (off + length xs) b)
      else None)"

text \<open>\<open>memmove(b + dst, b + src, n)\<close> inside one block: all bytes are read, then written.\<close>

definition memmove :: "block \<Rightarrow> nat \<Rightarrow> nat \<Rightarrow> nat \<Rightarrow> block option" where
  "memmove b dst src n = do { xs \<leftarrow> rdn b src n; wrn b dst xs }"

text \<open>\<open>memmove_P(b + dst, from, n)\<close> and \<open>memcpy_P\<close>: \<open>n\<close> bytes of another block.\<close>

definition memmove_P :: "block \<Rightarrow> nat \<Rightarrow> block \<Rightarrow> nat \<Rightarrow> block option" where
  "memmove_P b dst from n = do { xs \<leftarrow> rdn from 0 n; wrn b dst xs }"

definition memset :: "block \<Rightarrow> nat \<Rightarrow> char \<Rightarrow> nat \<Rightarrow> block option" where
  "memset b off c n = wrn b off (replicate n c)"

text \<open>
  \<open>strlen\<close>: the number of bytes before the first NUL; a block without NUL is read past
  its end.
\<close>

definition strlen :: "block \<Rightarrow> nat option" where
  "strlen b = (if NUL \<in> set b then Some (length (takeWhile (\<lambda>c. c \<noteq> NUL) b)) else None)"

text \<open>\<open>unsigned int\<close> is 32 bits wide on the ESP8266: sums wrap around.\<close>

definition u32 :: "nat \<Rightarrow> nat" where
  "u32 n = n mod 4294967296"

section \<open>The platform and the allocator\<close>

text \<open>
  \<open>WString.h\<close> is not part of the sources at hand, so the constants it declares are
  parameters: \<open>SSOSIZE\<close> is \<open>sizeof(sso.buff)\<close>, \<open>CAPACITY_MAX\<close> the capacity ceiling.
  The allocator is an external collaborator: \<open>realloc_ok n\<close> tells whether a request for \<open>n\<close>
  bytes is satisfied, and \<open>junk\<close> gives the indeterminate bytes that fresh memory holds
  (and that the inline array holds when the union is switched from the pointer record to
  it).
\<close>

record env =
  SSOSIZE :: nat
  CAPACITY_MAX :: nat
  realloc_ok :: "nat \<Rightarrow> bool"
  junk :: "nat \<Rightarrow> char"

definition indeterminate :: "env \<Rightarrow> nat \<Rightarrow> block" where
  "indeterminate E n = map (junk E) [0..<n]"

text \<open>\<open>realloc(p, n)\<close> when it succeeds: the old bytes up to the smaller size are kept.\<close>

definition realloc :: "env \<Rightarrow> block option \<Rightarrow> nat \<Rightarrow> block" where
  "realloc E p n =
     (case p of None \<Rightarrow> indeterminate E n
      | Some old \<Rightarrow> take n old @ map (junk E) [length old..<n])"

section \<open>The String object\<close>

text \<open>
  The object is a union of the inline record \<open>sso\<close> (the array \<open>buff\<close> of
  \<open>SSOSIZE\<close> bytes, \<open>len\<close>, and the flag \<open>isSSO\<close> set) and of the pointer record \<open>ptr\<close>
  (\<open>buff\<close>, \<open>cap\<close>, \<open>len\<close>, flag cleared). A null \<open>ptr.buff\<close> is \<open>None\<close>; a heap block is
  held by value. The two records share their memory, so a switch from one to the other
  leaves no field of the old one behind. The widths of the length and capacity fields are
  declared in \<open>WString.h\<close>; lengths and capacities are natural numbers here, and
  \<open>env_ok\<close> below bounds them so that they fit 16 bits.
\<close>

datatype String = SSO block nat | PTR "block option" nat nat

text \<open>
  Modelled from the spec: \<open>isSSO()\<close> of \<open>WString.h\<close>, not under src/; the
  discriminant of the two storage modes.
\<close>

fun isSSO :: "String \<Rightarrow> bool" where
  "isSSO (SSO b l) = True"
| "isSSO (PTR p c l) = False"

text \<open>
  Modelled from the spec: \<open>len()\<close> of \<open>WString.h\<close>, not under src/; the number of
  meaningful bytes, without the terminator.
\<close>

fun len :: "String \<Rightarrow> nat" where
  "len (SSO b l) = l"
| "len (PTR p c l) = l"

text \<open>
  Modelled from the spec: \<open>capacity()\<close> of \<open>WString.h\<close>, not under src/; in inline
  mode the array size minus one, in heap mode the stored capacity.
\<close>

fun capacity :: "env \<Rightarrow> String \<Rightarrow> nat" where
  "capacity E (SSO b l) = SSOSIZE E - 1"
| "capacity E (PTR p c l) = c"

text \<open>
  Modelled from the spec: \<open>buffer()\<close> and \<open>wbuffer()\<close> of \<open>WString.h\<close>, not under
  src/; the active storage, the inline array or the heap block.
\<close>

fun buffer :: "String \<Rightarrow> block option" where
  "buffer (SSO b l) = Some b"
| "buffer (PTR p c l) = p"

text \<open>
  Modelled from the spec: \<open>setLen()\<close> of \<open>WString.h\<close>, not under src/; it stores the
  length in the active record.
\<close>

fun setLen :: "nat \<Rightarrow> String \<Rightarrow> String" where
  "setLen n (SSO b l) = SSO b n"
| "setLen n (PTR p c l) = PTR p c n"

text \<open>The model's counterpart of a write through \<open>wbuffer()\<close>: the active buffer is replaced.\<close>

fun setBuf :: "block \<Rightarrow> String \<Rightarrow> String" where
  "setBuf b' (SSO b l) = SSO b' l"
| "setBuf b' (PTR p c l) = PTR (Some b') c l"

text \<open>
  Modelled from the spec: \<open>init()\<close> of \<open>WString.h\<close>, not under src/; the reset to the
  initial empty inline state: length zero, terminator in the first byte of the inline
  array. The other bytes of the array stay as they are (indeterminate after a switch from
  the pointer record).
\<close>

fun init :: "env \<Rightarrow> String \<Rightarrow> String" where
  "init E (SSO b l) = SSO (b[0 := NUL]) 0"
| "init E (PTR p c l) = SSO ((indeterminate E (SSOSIZE E))[0 := NUL]) 0"

text \<open>The content of a value: the \<open>len()\<close> bytes at the start of the active buffer.\<close>

definition content :: "String \<Rightarrow> block" where
  "content s = (case buffer s of None \<Rightarrow> [] | Some b \<Rightarrow> take (len s) b)"

subsection \<open>Memory management\<close>

text \<open>\<open>free\<close> releases the heap block; the object itself is reset by \<open>init\<close>.\<close>

definition invalidate :: "env \<Rightarrow> String \<Rightarrow> String" where
  "invalidate E s = init E s"

text \<open>
  \<open>changeBuffer(unsigned int maxStrLen)\<close>. \<open>oldLen\<close> is a \<open>uint16_t\<close>; \<open>newSize\<close> is
  \<open>(maxStrLen + 16) & (~0xf)\<close>.
\<close>

definition changeBuffer :: "env \<Rightarrow> nat \<Rightarrow> String \<Rightarrow> (bool \<times> String) option" where
  "changeBuffer E maxStrLen s =
     (if maxStrLen < SSOSIZE E - 1 then
        (case s of
           SSO b l \<Rightarrow> Some (True, SSO b (l mod 65536))
         | PTR None c l \<Rightarrow> Some (True, SSO (indeterminate E (SSOSIZE E)) (l mod 65536))
         | PTR (Some temp) c l \<Rightarrow>
             do { b \<leftarrow> memmove_P (indeterminate E (SSOSIZE E)) 0 temp maxStrLen;
                  Some (True, SSO b (l mod 65536)) })
      else
        let newSize = u32 (maxStrLen + 16) div 16 * 16 in
        if newSize > CAPACITY_MAX E then Some (False, s)
        else
          let oldLen = len s mod 65536 in
          if \<not> realloc_ok E newSize then Some (False, s)
          else
            let newbuffer = realloc E (if isSSO s then None else buffer s) newSize;
                oldSize = capacity E s + 1 in
            do { nb1 \<leftarrow> (case s of SSO b l \<Rightarrow> memmove_P newbuffer 0 b (SSOSIZE E)
                               | PTR p c l \<Rightarrow> Some newbuffer);
                 nb2 \<leftarrow> (if newSize > oldSize then memset nb1 oldSize NUL (newSize - oldSize)
                         else Some nb1);
                 Some (True, PTR (Some nb2) (newSize - 1) oldLen) })"

text \<open>A write of one byte through \<open>wbuffer()\<close>: \<open>wbuffer()[i] = c\<close>.\<close>

definition poke :: "String \<Rightarrow> nat \<Rightarrow> char \<Rightarrow> String option" where
  "poke s i c = do { b \<leftarrow> buffer s; b' \<leftarrow> wr b i c; Some (setBuf b' s) }"

text \<open>\<open>reserve(unsigned int size)\<close>.\<close>

definition reserve :: "env \<Rightarrow> nat \<Rightarrow> String \<Rightarrow> (bool \<times> String) option" where
  "reserve E sz s =
     (if buffer s \<noteq> None \<and> capacity E s \<ge> sz then Some (True, s)
      else do { (ok, s1) \<leftarrow> changeBuffer E sz s;
                if ok then
                  (if len s1 = 0 then do { s2 \<leftarrow> poke s1 0 NUL; Some (True, s2) }
                   else Some (True, s1))
                else Some (False, s1) })"

subsection \<open>Copy and assignment\<close>

text \<open>\<open>copy(const char *cstr, unsigned int length)\<close>; \<open>cstr\<close> is the block the pointer addresses,
  \<open>n\<close> the argument \<open>length\<close>.\<close>

definition copy :: "env \<Rightarrow> block \<Rightarrow> nat \<Rightarrow> String \<Rightarrow> String option" where
  "copy E cstr n s =
     do { (ok, s1) \<leftarrow> reserve E n s;
          if \<not> ok then Some (invalidate E s1)
          else do { let s2 = setLen n s1;
                    b \<leftarrow> buffer s2;
                    b' \<leftarrow> memmove_P b 0 cstr (n + 1);
                    Some (setBuf b' s2) } }"

text \<open>\<open>copy(const __FlashStringHelper *pstr, unsigned int length)\<close>, with \<open>memcpy_P\<close>.\<close>

definition copy_P :: "env \<Rightarrow> block \<Rightarrow> nat \<Rightarrow> String \<Rightarrow> String option" where
  "copy_P E pstr n s =
     do { (ok, s1) \<leftarrow> reserve E n s;
          if \<not> ok then Some (invalidate E s1)
          else do { let s2 = setLen n s1;
                    b \<leftarrow> buffer s2;
                    b' \<leftarrow> memmove_P b 0 pstr (n + 1);
                    Some (setBuf b' s2) } }"

text \<open>\<open>operator=(const String &rhs)\<close> for \<open>this != &rhs\<close> (the self-assignment returns at once).\<close>

definition assign_String :: "env \<Rightarrow> String \<Rightarrow> String \<Rightarrow> String option" where
  "assign_String E rhs s =
     (case buffer rhs of Some b \<Rightarrow> copy E b (len rhs) s | None \<Rightarrow> Some (invalidate E s))"

text \<open>\<open>operator=(const char *cstr)\<close>; a null pointer is \<open>None\<close>.\<close>

definition assign_cstr :: "env \<Rightarrow> block option \<Rightarrow> String \<Rightarrow> String option" where
  "assign_cstr E cstr s =
     (case cstr of
        Some b \<Rightarrow> do { n \<leftarrow> strlen b; copy E b n s }
      | None \<Rightarrow> Some (invalidate E s))"

text \<open>\<open>operator=(const __FlashStringHelper *pstr)\<close>.\<close>

definition assign_P :: "env \<Rightarrow> block option \<Rightarrow> String \<Rightarrow> String option" where
  "assign_P E pstr s =
     (case pstr of
        Some b \<Rightarrow> do { n \<leftarrow> strlen b; copy_P E b n s }
      | None \<Rightarrow> Some (invalidate E s))"

subsection \<open>Construction\<close>

text \<open>
  Modelled from the spec: the default constructor \<open>String()\<close> of \<open>WString.h\<close>, not under
  src/; a fresh object (indeterminate memory) reset by \<open>init\<close>, as in every constructor of
  \<open>WString.cpp\<close>.
\<close>

definition String_empty :: "env \<Rightarrow> String" where
  "String_empty E = init E (PTR None 0 0)"

text \<open>\<open>String(const char *cstr)\<close>.\<close>

definition String_cstr :: "env \<Rightarrow> block option \<Rightarrow> String option" where
  "String_cstr E cstr =
     (case cstr of
        Some b \<Rightarrow> do { n \<leftarrow> strlen b; copy E b n (String_empty E) }
      | None \<Rightarrow> Some (String_empty E))"

subsection \<open>concat\<close>

text \<open>\<open>concat(const char *cstr, unsigned int length)\<close>.\<close>

definition concat_cstr_len :: "env \<Rightarrow> block option \<Rightarrow> nat \<Rightarrow> String \<Rightarrow> (bool \<times> String) option" where
  "concat_cstr_len E cstr n s =
     (let newlen = u32 (len s + n) in
      case cstr of
        None \<Rightarrow> Some (False, s)
      | Some from \<Rightarrow>
          if n = 0 then Some (True, s)
          else
            do { (ok, s1) \<leftarrow> reserve E newlen s;
                 if \<not> ok then Some (False, s1)
                 else do { b \<leftarrow> buffer s1;
                           b' \<leftarrow> memmove_P b (len s1) from n;
                           s2 \<leftarrow> poke (setLen newlen (setBuf b' s1)) newlen NUL;
                           Some (True, s2) } })"

text \<open>
  \<open>concat(const String &s)\<close>. The argument is either the object itself (\<open>&s == this\<close>) or
  another object.
\<close>

datatype arg = Self | Other String

definition concat_String :: "env \<Rightarrow> arg \<Rightarrow> String \<Rightarrow> (bool \<times> String) option" where
  "concat_String E a s =
     (case a of
        Self \<Rightarrow>
          (let newlen = u32 (2 * len s) in
           if buffer s = None then Some (False, s)
           else if len s = 0 then Some (True, s)
           else
             do { (ok, s1) \<leftarrow> reserve E newlen s;
                  if \<not> ok then Some (False, s1)
                  else do { b \<leftarrow> buffer s1;
                            b' \<leftarrow> memmove b (len s1) 0 (len s1);
                            s2 \<leftarrow> poke (setLen newlen (setBuf b' s1)) newlen NUL;
                            Some (True, s2) } })
      | Other t \<Rightarrow> concat_cstr_len E (buffer t) (len t) s)"

text \<open>\<open>concat(const char *cstr)\<close>.\<close>

definition concat_cstr :: "env \<Rightarrow> block option \<Rightarrow> String \<Rightarrow> (bool \<times> String) option" where
  "concat_cstr E cstr s =
     (case cstr of
        None \<Rightarrow> Some (False, s)
      | Some b \<Rightarrow> do { n \<leftarrow> strlen b; concat_cstr_len E cstr n s })"

text \<open>\<open>concat(const __FlashStringHelper *str)\<close>: the terminator is copied with the bytes.\<close>

definition concat_P :: "env \<Rightarrow> block option \<Rightarrow> String \<Rightarrow> (bool \<times> String) option" where
  "concat_P E str s =
     (case str of
        None \<Rightarrow> Some (False, s)
      | Some from \<Rightarrow>
          do { n \<leftarrow> strlen from;
               if n = 0 then Some (True, s)
               else
                 let newlen = u32 (len s + n) in
                 do { (ok, s1) \<leftarrow> reserve E newlen s;
                      if \<not> ok then Some (False, s1)
                      else do { b \<leftarrow> buffer s1;
                                b' \<leftarrow> memmove_P b (len s1) from (n + 1);
                                Some (True, setLen newlen (setBuf b' s1)) } } })"

subsection \<open>Insert\<close>

text \<open>\<open>insert(size_t position, const char *other, size_t other_length)\<close>.\<close>

definition insert_cstr_len :: "env \<Rightarrow> nat \<Rightarrow> block \<Rightarrow> nat \<Rightarrow> String \<Rightarrow> String option" where
  "insert_cstr_len E position other other_length s =
     (if position > len s then Some s
      else
        let l = len s; total = u32 (l + other_length) in
        do { (ok, s1) \<leftarrow> reserve E total s;
             if \<not> ok then Some s1
             else
               let left = l - position; s2 = setLen total s1 in
               do { b \<leftarrow> buffer s2;
                    b1 \<leftarrow> memmove b (position + other_length) position left;
                    b2 \<leftarrow> memmove_P b1 position other other_length;
                    poke (setBuf b2 s2) total NUL } })"

subsection \<open>Comparison\<close>

text \<open>
  \<open>strcmp\<close> on the blocks two pointers address. The C standard fixes the sign of the
  result only; the value taken here is the difference of the first two bytes that differ,
  read as \<open>unsigned char\<close>. Running off a block before a NUL is met is \<open>None\<close>.
\<close>

fun strcmp :: "block \<Rightarrow> block \<Rightarrow> int option" where
  "strcmp [] ys = None"
| "strcmp (x # xs) [] = None"
| "strcmp (x # xs) (y # ys) =
     (if x \<noteq> y then Some (int (of_char x) - int (of_char y))
      else if x = NUL then Some 0
      else strcmp xs ys)"

text \<open>\<open>compareTo(const String &s)\<close> and the four ordering operators.\<close>

definition compareTo :: "String \<Rightarrow> String \<Rightarrow> int option" where
  "compareTo this s =
     (case (buffer this, buffer s) of
        (Some b1, Some b2) \<Rightarrow> strcmp b1 b2
      | (p1, p2) \<Rightarrow>
          if p2 \<noteq> None \<and> len s > 0 then
            do { b2 \<leftarrow> p2; c \<leftarrow> rd b2 0; Some (0 - int (of_char c)) }
          else if p1 \<noteq> None \<and> len this > 0 then
            do { b1 \<leftarrow> p1; c \<leftarrow> rd b1 0; Some (int (of_char c)) }
          else Some 0)"

definition operator_lt :: "String \<Rightarrow> String \<Rightarrow> bool option" where
  "operator_lt this rhs = do { r \<leftarrow> compareTo this rhs; Some (r < 0) }"

definition operator_gt :: "String \<Rightarrow> String \<Rightarrow> bool option" where
  "operator_gt this rhs = do { r \<leftarrow> compareTo this rhs; Some (r > 0) }"

definition operator_le :: "String \<Rightarrow> String \<Rightarrow> bool option" where
  "operator_le this rhs = do { r \<leftarrow> compareTo this rhs; Some (r \<le> 0) }"

definition operator_ge :: "String \<Rightarrow> String \<Rightarrow> bool option" where
  "operator_ge this rhs = do { r \<leftarrow> compareTo this rhs; Some (r \<ge> 0) }"

text \<open>
  The loop of \<open>equalsConstantTime\<close>: \<open>p1\<close> and \<open>p2\<close> are the blocks from the two read
  positions on; the result is the pair of the counters \<open>equalchars\<close> and \<open>diffchars\<close>.
  One iteration adds one to exactly one of them.
\<close>

fun equalsConstantTime_loop :: "block \<Rightarrow> block \<Rightarrow> nat \<Rightarrow> nat \<Rightarrow> (nat \<times> nat) option" where
  "equalsConstantTime_loop [] p2 equalchars diffchars = None"
| "equalsConstantTime_loop (x # p1) p2 equalchars diffchars =
     (if x = NUL then Some (equalchars, diffchars)
      else case p2 of
             [] \<Rightarrow> None
           | y # p2' \<Rightarrow>
               if x = y then equalsConstantTime_loop p1 p2' (u32 (equalchars + 1)) diffchars
               else equalsConstantTime_loop p1 p2' equalchars (u32 (diffchars + 1)))"

text \<open>\<open>equalsConstantTime(const String &s2)\<close>; the result is the \<open>unsigned char\<close> 0 or 1.\<close>

definition equalsConstantTime :: "String \<Rightarrow> String \<Rightarrow> nat option" where
  "equalsConstantTime this s2 =
     (if len this \<noteq> len s2 then Some 0
      else if len this = 0 then Some 1
      else
        do { p1 \<leftarrow> buffer this;
             p2 \<leftarrow> buffer s2;
             (equalchars, diffchars) \<leftarrow> equalsConstantTime_loop p1 p2 0 0;
             let equalcond = (if equalchars = len this then 1 else 0 :: nat);
                 diffcond = (if diffchars = 0 then 1 else 0 :: nat)
             in Some (and equalcond diffcond) })"

subsection \<open>Search\<close>

text \<open>The C string at \<open>b + off\<close>: the bytes before the first NUL.\<close>

definition cstring :: "block \<Rightarrow> nat \<Rightarrow> block option" where
  "cstring b off =
     (if NUL \<in> set (drop off b) then Some (takeWhile (\<lambda>c. c \<noteq> NUL) (drop off b)) else None)"

text \<open>The position of the first occurrence of \<open>needle\<close> in \<open>hay\<close>.\<close>

fun first_match :: "block \<Rightarrow> block \<Rightarrow> nat option" where
  "first_match needle [] = (if needle = [] then Some 0 else None)"
| "first_match needle (h # hs) =
     (if take (length needle) (h # hs) = needle then Some 0
      else map_option Suc (first_match needle hs))"

text \<open>
  \<open>strstr_P(b + off, find)\<close>: both arguments are C strings. The outer \<open>option\<close> is the
  memory check, the inner one the returned pointer: \<open>None\<close> for null, else the offset in
  \<open>b\<close>.
\<close>

definition strstr_P :: "block \<Rightarrow> nat \<Rightarrow> block \<Rightarrow> nat option option" where
  "strstr_P b off findStr =
     do { hay \<leftarrow> cstring b off;
          needle \<leftarrow> cstring findStr 0;
          Some (map_option (\<lambda>i. off + i) (first_match needle hay)) }"

text \<open>\<open>int\<close> is 32 bits wide: a value converted to \<open>int\<close> wraps into the signed range.\<close>

definition s32 :: "int \<Rightarrow> int" where
  "s32 x = (x + 2147483648) mod 4294967296 - 2147483648"

definition u32i :: "int \<Rightarrow> nat" where
  "u32i x = nat (x mod 4294967296)"

text \<open>The \<open>length pat\<close> bytes at offset \<open>i\<close> of the block are \<open>pat\<close>.\<close>

definition match_at :: "block \<Rightarrow> block \<Rightarrow> nat \<Rightarrow> bool" where
  "match_at b pat i = (i + length pat \<le> length b \<and> take (length pat) (drop i b) = pat)"

text \<open>The greatest position at most \<open>i\<close> at which \<open>pat\<close> stands in the block.\<close>

fun last_match :: "block \<Rightarrow> block \<Rightarrow> nat \<Rightarrow> nat option" where
  "last_match b pat 0 = (if match_at b pat 0 then Some 0 else None)"
| "last_match b pat (Suc i) =
     (if match_at b pat (Suc i) then Some (Suc i) else last_match b pat i)"

text \<open>
  Modelled from the spec: \<open>__strrstr_P(string, stringLen, find, findLen)\<close> is not under
  src/. It is the last-match-before-index search of the spec: the greatest position
  \<open>i\<close> with \<open>i + findLen \<le> stringLen\<close> at which the \<open>findLen\<close> bytes of \<open>find\<close> stand in
  \<open>string\<close>, or null (\<open>None\<close>).
\<close>

definition strrstr_P :: "block \<Rightarrow> nat \<Rightarrow> block \<Rightarrow> nat \<Rightarrow> nat option" where
  "strrstr_P string stringLen findStr findLen =
     (if stringLen < findLen \<or> length findStr < findLen then None
      else last_match string (take findLen findStr) (stringLen - findLen))"

text \<open>
  \<open>_lastIndexOf_P(find, fromIndex, findLen)\<close>; the result is an \<open>int\<close>, \<open>-1\<close> for no
  match.
\<close>

definition lastIndexOf_P :: "block option \<Rightarrow> nat \<Rightarrow> nat \<Rightarrow> String \<Rightarrow> int option" where
  "lastIndexOf_P findStr fromIndex findLen s =
     (case findStr of
        None \<Rightarrow> Some (- 1)
      | Some f \<Rightarrow>
          if len s = 0 then Some (- 1)
          else
            let fromIndex' = (if fromIndex = 4294967295 then len s else fromIndex) in
            do { b \<leftarrow> buffer s;
                 case strrstr_P b (u32 (fromIndex' + findLen)) f findLen of
                   None \<Rightarrow> Some (- 1)
                 | Some i \<Rightarrow> Some (s32 (int i)) })"

subsection \<open>substring\<close>

text \<open>
  \<open>substring(left, right)\<close> returns the new value; the source object is given back with
  it, since its buffer is written to and restored. The pointer \<open>writeTo + left\<close> is the
  block from offset \<open>left\<close> on.
\<close>

definition substring :: "env \<Rightarrow> nat \<Rightarrow> nat \<Rightarrow> String \<Rightarrow> (String \<times> String) option" where
  "substring E left0 right0 s =
     (let left = (if left0 > right0 then right0 else left0);
          right = (if left0 > right0 then left0 else right0);
          out = String_empty E
      in if left \<ge> len s then Some (out, s)
         else
           let right = (if right > len s then len s else right) in
           do { writeTo \<leftarrow> buffer s;
                tempchar \<leftarrow> rd writeTo right;
                s1 \<leftarrow> poke s right NUL;
                b1 \<leftarrow> buffer s1;
                cstr \<leftarrow> (if left \<le> length b1 then Some (drop left b1) else None);
                out' \<leftarrow> assign_cstr E (Some cstr) out;
                s2 \<leftarrow> poke s1 right tempchar;
                Some (out', s2) })"

subsection \<open>Modification\<close>

text \<open>
  \<open>remove(unsigned int index, unsigned int count)\<close>. It returns without a write when the
  index is not below the length or the count is zero.
\<close>

definition String_remove :: "nat \<Rightarrow> nat \<Rightarrow> String \<Rightarrow> String option" where
  "String_remove index count0 s =
     (if index \<ge> len s then Some s
      else if count0 \<le> 0 then Some s
      else
        let count = (if count0 > len s - index then len s - index else count0);
            newlen = len s - count
        in do { b \<leftarrow> buffer s;
                b' \<leftarrow> memmove b index (index + count) (newlen - index);
                poke (setLen newlen (setBuf b' s)) newlen NUL })"

text \<open>\<open>memchr_P(s, c, n)\<close> as a truth value: the search stops at the first occurrence.\<close>

definition memchr_P :: "block \<Rightarrow> char \<Rightarrow> nat \<Rightarrow> bool option" where
  "memchr_P s c n =
     (if c \<in> set (take n s) then Some True else if n \<le> length s then Some False else None)"

text \<open>
  Modelled from the spec: the enumeration \<open>TrimType\<close> is declared in \<open>WString.h\<close>; the code
  tests its \<open>LEFT\<close> and \<open>RIGHT\<close> bits, and trimming both ends has both set.
\<close>

datatype TrimType = LEFT | RIGHT | BOTH

text \<open>
  Modelled from the spec: the test of the \<open>LEFT\<close> bit of a \<open>TrimType\<close> value, whose
  encoding is in \<open>WString.h\<close>.
\<close>

fun has_LEFT :: "TrimType \<Rightarrow> bool" where
  "has_LEFT LEFT = True"
| "has_LEFT RIGHT = False"
| "has_LEFT BOTH = True"

text \<open>
  Modelled from the spec: the test of the \<open>RIGHT\<close> bit of a \<open>TrimType\<close> value, whose
  encoding is in \<open>WString.h\<close>.
\<close>

fun has_RIGHT :: "TrimType \<Rightarrow> bool" where
  "has_RIGHT LEFT = False"
| "has_RIGHT RIGHT = True"
| "has_RIGHT BOTH = True"

text \<open>The trailing scan of the character-set trim; the result is the new \<open>len\<close>.\<close>

fun trim_right_loop :: "block \<Rightarrow> nat \<Rightarrow> block \<Rightarrow> nat \<Rightarrow> nat option" where
  "trim_right_loop characters charLen b 0 = Some 0"
| "trim_right_loop characters charLen b (Suc n) =
     (case rd b n of
        None \<Rightarrow> None
      | Some c \<Rightarrow>
          (case memchr_P characters c charLen of
             None \<Rightarrow> None
           | Some found \<Rightarrow>
               if found then trim_right_loop characters charLen b n else Some (Suc n)))"

text \<open>The leading scan; the result is the final value of \<open>remove\<close>, the last index read.\<close>

function trim_left_loop :: "block \<Rightarrow> nat \<Rightarrow> block \<Rightarrow> nat \<Rightarrow> nat option" where
  "trim_left_loop characters charLen b remove =
     (case rd b remove of
        None \<Rightarrow> None
      | Some c \<Rightarrow>
          (case memchr_P characters c charLen of
             None \<Rightarrow> None
           | Some found \<Rightarrow>
               if found then trim_left_loop characters charLen b (remove + 1) else Some remove))"
  by pat_completeness auto
termination
  by (relation "measure (\<lambda>(characters, charLen, b, remove). length b - remove)")
     (auto simp: rd_def split: if_splits)

text \<open>
  \<open>_trim(TrimType type, PGM_P characters, size_t charLen)\<close>, the character-set trim.
  \<open>charLen\<close> is incremented before the scans, so that \<open>memchr_P\<close> searches one byte more of
  \<open>characters\<close> than the caller counted.
\<close>

definition String_trim :: "TrimType \<Rightarrow> block option \<Rightarrow> nat \<Rightarrow> String \<Rightarrow> String option" where
  "String_trim type characters charLen0 s =
     (case characters of
        None \<Rightarrow> Some s
      | Some chars \<Rightarrow>
          if len s = 0 \<or> charLen0 = 0 then Some s
          else
            let charLen = u32 (charLen0 + 1) in
            do { (s1, l) \<leftarrow>
                   (if has_RIGHT type then
                      do { b \<leftarrow> buffer s;
                           l \<leftarrow> trim_right_loop chars charLen b (len s);
                           Some (setLen l s, l) }
                    else Some (s, len s));
                 if has_LEFT type then
                   do { b \<leftarrow> buffer s1;
                        r \<leftarrow> trim_left_loop chars charLen b 0;
                        String_remove 0 r s1 }
                 else poke s1 l NUL })"

text \<open>
  The loops of \<open>_replace\<close> move forward through the buffer; their termination rests on
  the bounds of a match.
\<close>

lemma first_match_le: "first_match needle hay = Some i \<Longrightarrow> i + length needle \<le> length hay"
proof (induction hay arbitrary: i)
  case Nil
  then show ?case by (simp split: if_splits)
next
  case (Cons h hs)
  show ?case
  proof (cases "take (length needle) (h # hs) = needle")
    case True
    then have "length (take (length needle) (h # hs)) = length needle"
      by (rule arg_cong)
    then have "length needle \<le> length (h # hs)"
      by simp
    with True Cons.prems show ?thesis by simp
  next
    case False
    with Cons.prems obtain j where "first_match needle hs = Some j" "i = Suc j"
      by auto
    with Cons.IH show ?thesis by fastforce
  qed
qed

lemma takeWhile_shorter: "x \<in> set xs \<Longrightarrow> \<not> P x \<Longrightarrow> length (takeWhile P xs) < length xs"
  by (induction xs) auto

lemma cstring_length: "cstring b off = Some hay \<Longrightarrow> off + length hay < length b"
proof -
  assume a: "cstring b off = Some hay"
  then have n: "NUL \<in> set (drop off b)" and h: "hay = takeWhile (\<lambda>c. c \<noteq> NUL) (drop off b)"
    by (auto simp: cstring_def split: if_splits)
  have "length hay < length (drop off b)"
    unfolding h using n by (rule takeWhile_shorter) simp
  then show ?thesis by simp
qed

lemma strstr_P_bounds:
  "strstr_P b off f = Some (Some at) \<Longrightarrow> off \<le> at \<and> at < length b"
  by (auto simp: strstr_P_def split: bind_splits dest!: cstring_length first_match_le)

lemma wrn_length: "wrn b off xs = Some b' \<Longrightarrow> length b' = length b"
  by (auto simp: wrn_def split: if_splits)

lemma memmove_P_length: "memmove_P b dst src n = Some b' \<Longrightarrow> length b' = length b"
  by (auto simp: memmove_P_def split: bind_splits dest: wrn_length)

lemma memmove_length: "memmove b dst src n = Some b' \<Longrightarrow> length b' = length b"
  by (auto simp: memmove_def split: bind_splits dest: wrn_length)

text \<open>
  The loop of the equal-length branch of \<open>_replace\<close>; the result is the buffer. A step that
  does not move \<open>readFrom\<close> forward would repeat for ever: it is \<open>None\<close>. (The guard of
  \<open>_replace\<close> excludes it: \<open>findLen\<close> is not zero.)
\<close>

function replace_equal :: "block \<Rightarrow> block \<Rightarrow> nat \<Rightarrow> block \<Rightarrow> nat \<Rightarrow> block option" where
  "replace_equal findStr replaceStr replaceLen b readFrom =
     (case strstr_P b readFrom findStr of
        None \<Rightarrow> None
      | Some None \<Rightarrow> Some b
      | Some (Some foundAt) \<Rightarrow>
          (case memmove_P b foundAt replaceStr replaceLen of
             None \<Rightarrow> None
           | Some b' \<Rightarrow>
               if foundAt + replaceLen \<le> readFrom then None
               else replace_equal findStr replaceStr replaceLen b' (foundAt + replaceLen)))"
  by pat_completeness auto
termination
  by (relation "measure (\<lambda>(findStr, replaceStr, replaceLen, b, readFrom). length b - readFrom)")
     (auto dest!: strstr_P_bounds memmove_P_length)

text \<open>
  The loop of the shrinking branch with the move of the tail behind it; \<open>l\<close> is \<open>len()\<close>,
  updated by \<open>setLen(len() + diff)\<close> at every match. The result is the buffer and the
  length.
\<close>

function replace_shrink ::
  "block \<Rightarrow> nat \<Rightarrow> block \<Rightarrow> nat \<Rightarrow> int \<Rightarrow> block \<Rightarrow> nat \<Rightarrow> nat \<Rightarrow> nat \<Rightarrow> (block \<times> nat) option" where
  "replace_shrink findStr findLen replaceStr replaceLen diff b l writeTo readFrom =
     (case strstr_P b readFrom findStr of
        None \<Rightarrow> None
      | Some None \<Rightarrow>
          do { n \<leftarrow> strlen (drop readFrom b);
               b' \<leftarrow> memmove b writeTo readFrom (n + 1);
               Some (b', l) }
      | Some (Some foundAt) \<Rightarrow>
          (case memmove b writeTo readFrom (foundAt - readFrom) of
             None \<Rightarrow> None
           | Some b1 \<Rightarrow>
               (case memmove_P b1 (writeTo + (foundAt - readFrom)) replaceStr replaceLen of
                  None \<Rightarrow> None
                | Some b2 \<Rightarrow>
                    if foundAt + findLen \<le> readFrom then None
                    else replace_shrink findStr findLen replaceStr replaceLen diff b2
                           (u32i (int l + diff))
                           (writeTo + (foundAt - readFrom) + replaceLen) (foundAt + findLen))))"
  by pat_completeness auto
termination
  by (relation "measure (\<lambda>(findStr, findLen, replaceStr, replaceLen, diff, b, l, writeTo, readFrom).
                  length b - readFrom)")
     (auto dest!: strstr_P_bounds memmove_P_length memmove_length)

text \<open>The first pass of the growing branch: \<open>size\<close> grows by \<open>diff\<close> at every match.\<close>

function replace_count :: "block \<Rightarrow> nat \<Rightarrow> int \<Rightarrow> block \<Rightarrow> nat \<Rightarrow> nat \<Rightarrow> nat option" where
  "replace_count findStr findLen diff b readFrom sz =
     (case strstr_P b readFrom findStr of
        None \<Rightarrow> None
      | Some None \<Rightarrow> Some sz
      | Some (Some foundAt) \<Rightarrow>
          if foundAt + findLen \<le> readFrom then None
          else replace_count findStr findLen diff b (foundAt + findLen) (u32i (int sz + diff)))"
  by pat_completeness auto
termination
  by (relation "measure (\<lambda>(findStr, findLen, diff, b, readFrom, sz). length b - readFrom)")
     (auto dest!: strstr_P_bounds)

text \<open>
  The second pass of the growing branch goes from the right to the left: the index
  decreases at every step.
\<close>

lemma last_match_le: "last_match b pat n = Some i \<Longrightarrow> i \<le> n"
  by (induction n) (auto split: if_splits)

lemma s32_le: "0 \<le> x \<Longrightarrow> s32 x \<le> x"
proof -
  assume "0 \<le> x"
  then have "(x + 2147483648) mod 4294967296 \<le> x + 2147483648"
    by (intro zmod_le_nonneg_dividend) simp
  then show ?thesis by (simp add: s32_def)
qed

lemma s32_less: "s32 x < 2147483648"
proof -
  have "(x + 2147483648) mod 4294967296 < 4294967296"
    by (rule pos_mod_bound) simp
  then show ?thesis by (simp add: s32_def)
qed

lemma strrstr_P_le:
  "strrstr_P b (u32 (n + findLen)) f findLen = Some i \<Longrightarrow> i \<le> n"
proof -
  assume a: "strrstr_P b (u32 (n + findLen)) f findLen = Some i"
  then have "i \<le> u32 (n + findLen) - findLen"
    by (auto simp: strrstr_P_def split: if_splits dest: last_match_le)
  moreover have "u32 (n + findLen) \<le> n + findLen"
    by (simp add: u32_def)
  ultimately show ?thesis by linarith
qed

lemma lastIndexOf_P_le:
  "lastIndexOf_P findStr (nat index) findLen s = Some index' \<Longrightarrow> 0 \<le> index \<Longrightarrow> index' \<le> index"
proof -
  assume a: "lastIndexOf_P findStr (nat index) findLen s = Some index'" and nn: "0 \<le> index"
  show ?thesis
  proof (cases "index' = - 1")
    case True
    with nn show ?thesis by simp
  next
    case False
    with a obtain f b i where
      i: "strrstr_P b (u32 ((if nat index = 4294967295 then len s else nat index) + findLen)) f findLen = Some i"
      and r: "index' = s32 (int i)"
      by (auto simp: lastIndexOf_P_def Let_def split: option.splits if_splits bind_splits)
    show ?thesis
    proof (cases "nat index = 4294967295")
      case True
      with nn have "index = 4294967295" by linarith
      with s32_less [of "int i"] r show ?thesis by simp
    next
      case False
      with i have "i \<le> nat index" by (auto dest: strrstr_P_le)
      with nn have "int i \<le> index" by linarith
      moreover have "s32 (int i) \<le> int i" by (rule s32_le) simp
      ultimately show ?thesis using r by linarith
    qed
  qed
qed

text \<open>
  The second pass of the growing branch: while \<open>index >= 0\<close> and the last match at or
  before \<open>index\<close> exists, the tail behind the match is moved by \<open>diff\<close>, the replacement
  is written, the length and the terminator are set, and the search goes on before the
  match.
\<close>

function replace_grow ::
  "block option \<Rightarrow> nat \<Rightarrow> block \<Rightarrow> nat \<Rightarrow> int \<Rightarrow> String \<Rightarrow> int \<Rightarrow> String option" where
  "replace_grow findStr findLen replaceStr replaceLen diff s index =
     (if index \<ge> 0 then
        (case lastIndexOf_P findStr (nat index) findLen s of
           None \<Rightarrow> None
         | Some index' \<Rightarrow>
             if index' \<ge> 0 then
               (case buffer s of
                  None \<Rightarrow> None
                | Some b \<Rightarrow>
                    let readFrom = nat index' + findLen;
                        newLen = int (len s) + diff
                    in (case memmove b (nat (int readFrom + diff)) readFrom
                                (u32i (int (len s) - int readFrom)) of
                          None \<Rightarrow> None
                        | Some b1 \<Rightarrow>
                            (case memmove_P b1 (nat index') replaceStr replaceLen of
                               None \<Rightarrow> None
                             | Some b2 \<Rightarrow>
                                 (case wr b2 (nat newLen) NUL of
                                    None \<Rightarrow> None
                                  | Some b3 \<Rightarrow>
                                      replace_grow findStr findLen replaceStr replaceLen diff
                                        (setLen (nat newLen) (setBuf b3 s)) (index' - 1)))))
             else Some s)
      else Some s)"
  by pat_completeness auto
termination
  by (relation "measure (\<lambda>(findStr, findLen, replaceStr, replaceLen, diff, s, index). nat (index + 1))")
     (auto dest!: lastIndexOf_P_le)

text \<open>\<open>_replace(PGM_P findStr, size_t findLen, PGM_P replaceStr, size_t replaceLen)\<close>.\<close>

definition String_replace ::
  "env \<Rightarrow> block option \<Rightarrow> nat \<Rightarrow> block \<Rightarrow> nat \<Rightarrow> String \<Rightarrow> (bool \<times> String) option" where
  "String_replace E findStr findLen replaceStr replaceLen s =
     (case findStr of
        None \<Rightarrow> Some (False, s)
      | Some f \<Rightarrow>
          if len s = 0 \<or> findLen = 0 then Some (False, s)
          else
            let diff = s32 (int replaceLen - int findLen) in
            if diff = 0 then
              do { b \<leftarrow> buffer s;
                   b' \<leftarrow> replace_equal f replaceStr replaceLen b 0;
                   Some (True, setBuf b' s) }
            else if diff < 0 then
              do { b \<leftarrow> buffer s;
                   (b', l) \<leftarrow> replace_shrink f findLen replaceStr replaceLen diff b (len s) 0 0;
                   Some (True, setLen l (setBuf b' s)) }
            else
              do { b \<leftarrow> buffer s;
                   sz \<leftarrow> replace_count f findLen diff b 0 (len s);
                   if sz = len s then Some (False, s)
                   else
                     do { (ok, s1) \<leftarrow> (if sz > capacity E s then changeBuffer E sz s
                                        else Some (True, s));
                          if \<not> ok then Some (False, s1)
                          else
                            do { s2 \<leftarrow> replace_grow findStr findLen replaceStr replaceLen diff s1
                                        (s32 (int (len s1) - 1));
                                 Some (True, s2) } } })"




text \<open>\<open>replace(char find, char replace)\<close>: the loop runs from the buffer start to the first NUL.\<close>

fun replace_char_loop :: "char \<Rightarrow> char \<Rightarrow> block \<Rightarrow> block option" where
  "replace_char_loop f r [] = None"
| "replace_char_loop f r (x # p) =
     (if x = NUL then Some (x # p)
      else map_option ((#) (if x = f then r else x)) (replace_char_loop f r p))"

definition replace_char :: "char \<Rightarrow> char \<Rightarrow> String \<Rightarrow> (bool \<times> String) option" where
  "replace_char f r s =
     (case buffer s of
        None \<Rightarrow> Some (True, s)
      | Some b \<Rightarrow> do { b' \<leftarrow> replace_char_loop f r b; Some (True, setBuf b' s) })"

subsection \<open>Case conversion and whitespace trim\<close>

text \<open>
  The character functions \<open>tolower\<close>, \<open>toupper\<close> and \<open>isspace\<close> belong to the C library
  (an external collaborator of the spec); they are parameters of the operations that call
  them. The loop of \<open>toLowerCase\<close> and \<open>toUpperCase\<close> runs from the buffer start to the first
  NUL.
\<close>

fun case_loop :: "(char \<Rightarrow> char) \<Rightarrow> block \<Rightarrow> block option" where
  "case_loop f [] = None"
| "case_loop f (x # p) =
     (if x = NUL then Some (x # p) else map_option ((#) (f x)) (case_loop f p))"

definition toLowerCase :: "(char \<Rightarrow> char) \<Rightarrow> String \<Rightarrow> String option" where
  "toLowerCase tolower s =
     (case buffer s of
        None \<Rightarrow> Some s
      | Some b \<Rightarrow> do { b' \<leftarrow> case_loop tolower b; Some (setBuf b' s) })"

definition toUpperCase :: "(char \<Rightarrow> char) \<Rightarrow> String \<Rightarrow> String option" where
  "toUpperCase toupper s =
     (case buffer s of
        None \<Rightarrow> Some s
      | Some b \<Rightarrow> do { b' \<leftarrow> case_loop toupper b; Some (setBuf b' s) })"

text \<open>The leading scan of \<open>_trim(TrimType)\<close>: \<open>while (isspace(*begin)) begin++\<close>.\<close>

function trim_begin_loop :: "(char \<Rightarrow> bool) \<Rightarrow> block \<Rightarrow> nat \<Rightarrow> nat option" where
  "trim_begin_loop isspace b beginp =
     (case rd b beginp of
        None \<Rightarrow> None
      | Some c \<Rightarrow> if isspace c then trim_begin_loop isspace b (beginp + 1) else Some beginp)"
  by pat_completeness auto
termination
  by (relation "measure (\<lambda>(isspace, b, beginp). length b - beginp)")
     (auto simp: rd_def split: if_splits)

text \<open>
  The trailing scan: \<open>while (isspace(*end) && end >= begin) end--\<close>. The byte is read
  before the bound is tested; a read before the buffer start is outside the block.
\<close>

function trim_end_loop :: "(char \<Rightarrow> bool) \<Rightarrow> block \<Rightarrow> nat \<Rightarrow> int \<Rightarrow> int option" where
  "trim_end_loop isspace b beginp endp =
     (if endp < 0 then None
      else case rd b (nat endp) of
             None \<Rightarrow> None
           | Some c \<Rightarrow>
               if isspace c \<and> endp \<ge> int beginp
               then trim_end_loop isspace b beginp (endp - 1)
               else Some endp)"
  by pat_completeness auto
termination
  by (relation "measure (\<lambda>(isspace, b, beginp, endp). nat (endp + 1))") auto

text \<open>\<open>_trim(TrimType type)\<close>, the whitespace trim.\<close>

definition String_trim_space :: "(char \<Rightarrow> bool) \<Rightarrow> TrimType \<Rightarrow> String \<Rightarrow> String option" where
  "String_trim_space isspace type s =
     (let l = len s in
      if l = 0 then Some s
      else
        do { b \<leftarrow> buffer s;
             beginp \<leftarrow> (if has_LEFT type then trim_begin_loop isspace b 0 else Some 0);
             endp \<leftarrow> (if has_RIGHT type then trim_end_loop isspace b beginp (int l - 1)
                       else Some (int l - 1));
             let newlen = u32i (endp + 1 - int beginp);
             b1 \<leftarrow> (if beginp > 0 then memmove b 0 beginp newlen else Some b);
             poke (setLen newlen (setBuf b1 s)) newlen NUL })"

section \<open>Well-formed values and environments\<close>

text \<open>
  The representation invariant of the spec: the length is at most the capacity and the
  byte at offset \<open>len\<close> is the terminator. The inline array has \<open>SSOSIZE\<close> bytes, a heap
  block has \<open>cap + 1\<close> bytes; heap blocks are made by \<open>changeBuffer\<close> only, which gives them
  a capacity of at least \<open>SSOSIZE - 1\<close> and below \<open>CAPACITY_MAX\<close>.
\<close>

fun valid :: "env \<Rightarrow> String \<Rightarrow> bool" where
  "valid E (SSO b l) = (length b = SSOSIZE E \<and> l < SSOSIZE E \<and> rd b l = Some NUL)"
| "valid E (PTR None c l) = False"
| "valid E (PTR (Some b) c l) =
     (length b = c + 1 \<and> l \<le> c \<and> rd b l = Some NUL \<and> SSOSIZE E - 1 \<le> c \<and> c < CAPACITY_MAX E)"

text \<open>
  The inline array is not empty and not larger than the ceiling, and the ceiling fits the
  16-bit fields \<open>cap\<close> and \<open>len\<close> of the pointer record.
\<close>

definition env_ok :: "env \<Rightarrow> bool" where
  "env_ok E = (0 < SSOSIZE E \<and> SSOSIZE E \<le> CAPACITY_MAX E \<and> CAPACITY_MAX E \<le> 65536)"

text \<open>A value is a C string when no NUL stands inside its content.\<close>

definition is_cstring :: "env \<Rightarrow> String \<Rightarrow> bool" where
  "is_cstring E s = (valid E s \<and> NUL \<notin> set (content s))"

text \<open>The allocation step of an operation fails: \<open>reserve(n)\<close> returns false.\<close>

definition alloc_fails :: "env \<Rightarrow> nat \<Rightarrow> String \<Rightarrow> bool" where
  "alloc_fails E n s = (case reserve E n s of Some (False, s') \<Rightarrow> True | _ \<Rightarrow> False)"

text \<open>
  Two environments for the concrete runs: the constants of the ESP8266 core
  (\<open>SSOSIZE = 11\<close>, \<open>CAPACITY_MAX = 65535\<close>) with an allocator that satisfies every request,
  and the same with an allocator that refuses every request.
\<close>

definition esp8266 :: env where
  "esp8266 = \<lparr>SSOSIZE = 11, CAPACITY_MAX = 65535, realloc_ok = (\<lambda>n. True), junk = (\<lambda>i. CHR ''?'')\<rparr>"

definition out_of_memory :: env where
  "out_of_memory =
     \<lparr>SSOSIZE = 11, CAPACITY_MAX = 65535, realloc_ok = (\<lambda>n. False), junk = (\<lambda>i. CHR ''?'')\<rparr>"

text \<open>The block of a string literal: its characters and the terminator.\<close>

definition c_str :: "string \<Rightarrow> block" where
  "c_str x = x @ [NUL]"

section \<open>Counting agreeing and differing positions\<close>

text \<open>The positions at which two byte runs agree, and those at which they differ.\<close>

definition matches :: "block \<Rightarrow> block \<Rightarrow> nat" where
  "matches xs ys = length (filter (\<lambda>(x, y). x = y) (zip xs ys))"

definition mismatches :: "block \<Rightarrow> block \<Rightarrow> nat" where
  "mismatches xs ys = length (filter (\<lambda>(x, y). x \<noteq> y) (zip xs ys))"

section \<open>The mutating operations as one type\<close>

text \<open>
  The operations that change a value, each with its arguments, so that a property of all
  of them can be stated at once. \<open>mutate\<close> runs one of them and gives the object after it
  (the returned flag, where there is one, is dropped).
\<close>

datatype mutation =
    Copy block nat
  | Copy_P block nat
  | Concat block nat
  | Concat_String arg
  | Concat_P block
  | Insert nat block nat
  | Remove nat nat
  | Replace_char char char
  | Replace block nat block nat
  | Trim_space "char \<Rightarrow> bool" TrimType
  | LowerCase "char \<Rightarrow> char"
  | UpperCase "char \<Rightarrow> char"
  | ChangeBuffer nat

fun mutate :: "env \<Rightarrow> mutation \<Rightarrow> String \<Rightarrow> String option" where
  "mutate E (Copy cstr n) s = copy E cstr n s"
| "mutate E (Copy_P pstr n) s = copy_P E pstr n s"
| "mutate E (Concat cstr n) s = map_option snd (concat_cstr_len E (Some cstr) n s)"
| "mutate E (Concat_String a) s = map_option snd (concat_String E a s)"
| "mutate E (Concat_P str) s = map_option snd (concat_P E (Some str) s)"
| "mutate E (Insert position other n) s = insert_cstr_len E position other n s"
| "mutate E (Remove index count) s = String_remove index count s"
| "mutate E (Replace_char f r) s = map_option snd (replace_char f r s)"
| "mutate E (Replace findStr findLen replaceStr replaceLen) s =
     map_option snd (String_replace E (Some findStr) findLen replaceStr replaceLen s)"
| "mutate E (Trim_space isspace type) s = String_trim_space isspace type s"
| "mutate E (LowerCase tolower) s = toLowerCase tolower s"
| "mutate E (UpperCase toupper) s = toUpperCase toupper s"
| "mutate E (ChangeBuffer n) s = map_option snd (changeBuffer E n s)"

text \<open>
  The inputs of an operation that the invariant is stated for. A source run is readable
  over the length that is passed and shorter than the address space. \<open>copy\<close> is given a
  length with the terminator behind it (its callers pass \<open>strlen\<close>). \<open>changeBuffer\<close> is
  asked for more than the capacity (as \<open>reserve\<close> and \<open>_replace\<close> do). \<open>_replace\<close> is given
  the length of the C string it searches for and a replacement that is not longer; for a
  shorter replacement the content of the value holds no NUL byte. The whitespace trim is
  given an \<open>isspace\<close> that is false on NUL, and the value is empty, or the leading scan
  runs, or the content holds a byte that is not whitespace.

  Three behaviours are outside: the character-set trim, the general replace with a longer
  replacement (its second pass can find matches that its first pass did not count), and
  the trailing scan of the whitespace trim alone on a value that is not empty and holds
  whitespace only (it reads the byte before the buffer).
\<close>

fun args_ok :: "env \<Rightarrow> mutation \<Rightarrow> String \<Rightarrow> bool" where
  "args_ok E (Copy cstr n) s = (n < length cstr \<and> rd cstr n = Some NUL \<and> n < 4294900000)"
| "args_ok E (Copy_P pstr n) s = (n < length pstr \<and> rd pstr n = Some NUL \<and> n < 4294900000)"
| "args_ok E (Concat cstr n) s = (n \<le> length cstr \<and> n < 4294900000)"
| "args_ok E (Concat_String Self) s = True"
| "args_ok E (Concat_String (Other t)) s = valid E t"
| "args_ok E (Concat_P str) s = (NUL \<in> set str \<and> length str < 4294900000)"
| "args_ok E (Insert position other n) s = (n \<le> length other \<and> n < 4294900000)"
| "args_ok E (Remove index count) s = True"
| "args_ok E (Replace_char f r) s = True"
| "args_ok E (Replace findStr findLen replaceStr replaceLen) s =
     (strlen findStr = Some findLen \<and> replaceLen \<le> length replaceStr
      \<and> findLen < 65536 \<and> replaceLen \<le> findLen
      \<and> (replaceLen < findLen \<longrightarrow> NUL \<notin> set (content s)))"
| "args_ok E (Trim_space isspace type) s =
     (\<not> isspace NUL
      \<and> (len s = 0 \<or> has_LEFT type \<or> (\<exists>c \<in> set (content s). \<not> isspace c)))"
| "args_ok E (LowerCase tolower) s = True"
| "args_ok E (UpperCase toupper) s = True"
| "args_ok E (ChangeBuffer n) s = (capacity E s < n \<and> n < 4294967280)"

text \<open>The byte at offset \<open>len\<close> of the active buffer is the terminator.\<close>

definition terminated :: "String \<Rightarrow> bool" where
  "terminated s = (case buffer s of None \<Rightarrow> False | Some b \<Rightarrow> rd b (len s) = Some NUL)"

section \<open>Lemmas\<close>

subsection \<open>Evaluation rules\<close>

lemmas mem_defs = rd_def rdn_def wr_def wrn_def memmove_def memmove_P_def memset_def strlen_def
  u32_def indeterminate_def realloc_def cstring_def strstr_P_def s32_def u32i_def match_at_def
  strrstr_P_def memchr_P_def

lemmas op_defs = String_cstr_def String_empty_def copy_def reserve_def changeBuffer_def poke_def
  invalidate_def esp8266_def out_of_memory_def c_str_def

lemma last_match_pos:
  "0 < n \<Longrightarrow>
     last_match b pat n = (if match_at b pat n then Some n else last_match b pat (n - 1))"
  by (cases n) auto

subsection \<open>A failed allocation changes nothing\<close>

lemma changeBuffer_False: "changeBuffer E n s = Some (False, s') \<Longrightarrow> s' = s"
  unfolding changeBuffer_def Let_def
  by (simp split: if_splits String.splits option.splits bind_splits)

lemma reserve_False: "reserve E n s = Some (False, s') \<Longrightarrow> s' = s"
  unfolding reserve_def
  by (auto split: if_splits bind_splits dest: changeBuffer_False)

lemma alloc_fails_iff: "alloc_fails E n s \<longleftrightarrow> reserve E n s = Some (False, s)"
  by (auto simp: alloc_fails_def split: option.splits bool.splits dest: reserve_False)

lemma len_init [simp]: "len (init E s) = 0"
  by (cases s) auto

lemma isSSO_init [simp]: "isSSO (init E s)"
  by (cases s) auto

lemma content_init [simp]: "content (init E s) = []"
  by (cases s) (auto simp: content_def)

lemma buffer_init [simp]: "buffer (init E s) \<noteq> None"
  by (cases s) auto

subsection \<open>Growing the storage of a well-formed value\<close>

lemma valid_buffer:
  assumes "valid E s"
  obtains b where "buffer s = Some b" "length b = capacity E s + 1" "len s \<le> capacity E s"
    "rd b (len s) = Some NUL"
proof (cases s)
  case (SSO b l)
  with assms show ?thesis by (intro that [of b]) auto
next
  case (PTR p c l)
  with assms obtain b where "p = Some b" by (cases p) auto
  with assms PTR show ?thesis by (intro that [of b]) auto
qed

lemma valid_capacity: "valid E s \<Longrightarrow> SSOSIZE E - 1 \<le> capacity E s"
proof (cases s)
  case (SSO b l)
  then show ?thesis by simp
next
  case (PTR p c l)
  assume "valid E s"
  with PTR show ?thesis by (cases p) auto
qed

lemma setBuf_same: "buffer s = Some b \<Longrightarrow> valid E s \<Longrightarrow> setBuf b s = s"
  by (cases s) auto

lemma newSize_bounds:
  assumes "n < 4294967280"
  shows "n < u32 (n + 16) div 16 * 16" "u32 (n + 16) div 16 * 16 \<le> n + 16"
proof -
  have "u32 (n + 16) = n + 16"
    using assms by (simp add: u32_def)
  then show "n < u32 (n + 16) div 16 * 16" "u32 (n + 16) div 16 * 16 \<le> n + 16"
    by presburger+
qed

lemma changeBuffer_grow:
  assumes E: "env_ok E" and v: "valid E s" and b: "buffer s = Some b"
    and n: "capacity E s < n" "n < 4294967280"
  shows "changeBuffer E n s = Some (False, s) \<or>
         (\<exists>c. changeBuffer E n s
                 = Some (True, PTR (Some (b @ replicate (c - capacity E s) NUL)) c (len s))
              \<and> n \<le> c \<and> c < CAPACITY_MAX E)"
proof -
  define N where "N = u32 (n + 16) div 16 * 16"
  have N: "n < N" "N \<le> n + 16"
    unfolding N_def using newSize_bounds [OF n(2)] by simp_all
  show ?thesis
  proof (cases "CAPACITY_MAX E < N \<or> \<not> realloc_ok E N")
    case True
    then have "changeBuffer E n s = Some (False, s)"
      using v b n(1) unfolding changeBuffer_def N_def [symmetric] Let_def
      by (cases s) (auto split: option.splits)
    then show ?thesis ..
  next
    case False
    then have ok: "N \<le> CAPACITY_MAX E" "realloc_ok E N" by auto
    have "changeBuffer E n s
            = Some (True, PTR (Some (b @ replicate (N - 1 - capacity E s) NUL)) (N - 1) (len s))"
    proof (cases s)
      case (SSO b' l)
      with v b have s: "b' = b" "length b = SSOSIZE E" "l < SSOSIZE E" by auto
      from n(1) SSO have c: "SSOSIZE E - 1 < n" by simp
      with N s have "SSOSIZE E < N" by linarith
      moreover have "l mod 65536 = l"
        using s E by (simp add: env_ok_def)
      moreover from \<open>SSOSIZE E < N\<close> s
      have "N - Suc (SSOSIZE E - Suc 0) = N - SSOSIZE E"
        by simp
      ultimately show ?thesis
        using SSO s c ok unfolding changeBuffer_def N_def [symmetric] Let_def
        by (simp add: mem_defs)
    next
      case (PTR p c l)
      with v b have s: "p = Some b" "length b = c + 1" "l \<le> c" "SSOSIZE E - 1 \<le> c"
        "c < CAPACITY_MAX E" by auto
      from n(1) PTR have c: "c < n" by simp
      have "l mod 65536 = l"
        using s E by (simp add: env_ok_def)
      moreover have "map (junk E) [Suc c..<N] = take (N - Suc c) (map (junk E) [Suc c..<N]) @ []"
        by simp
      ultimately show ?thesis
        using PTR s c ok N unfolding changeBuffer_def N_def [symmetric] Let_def
        by (simp add: mem_defs)
    qed
    moreover have "n \<le> N - 1" "N - 1 < CAPACITY_MAX E"
      using N ok by linarith+
    ultimately show ?thesis by blast
  qed
qed

lemma reserve_valid:
  assumes E: "env_ok E" and v: "valid E s" and b: "buffer s = Some b" and n: "n < 4294967280"
  shows "reserve E n s = Some (False, s) \<or>
         (\<exists>s' z. reserve E n s = Some (True, s') \<and> valid E s' \<and> n \<le> capacity E s'
                 \<and> len s' = len s \<and> buffer s' = Some (b @ z))"
proof (cases "n \<le> capacity E s")
  case True
  with b v have "reserve E n s = Some (True, s)"
    by (simp add: reserve_def)
  with v b True show ?thesis by auto
next
  case False
  then have lt: "capacity E s < n" by simp
  from v obtain b' where vb: "buffer s = Some b'" "length b' = capacity E s + 1"
    "len s \<le> capacity E s" "rd b' (len s) = Some NUL"
    by (rule valid_buffer)
  with b have vb: "length b = capacity E s + 1" "len s \<le> capacity E s" "rd b (len s) = Some NUL"
    by auto
  from changeBuffer_grow [OF E v b lt n] show ?thesis
  proof
    assume "changeBuffer E n s = Some (False, s)"
    with False have "reserve E n s = Some (False, s)"
      by (simp add: reserve_def)
    then show ?thesis ..
  next
    assume "\<exists>c. changeBuffer E n s
                 = Some (True, PTR (Some (b @ replicate (c - capacity E s) NUL)) c (len s))
              \<and> n \<le> c \<and> c < CAPACITY_MAX E"
    then obtain c where c: "changeBuffer E n s
                 = Some (True, PTR (Some (b @ replicate (c - capacity E s) NUL)) c (len s))"
        "n \<le> c" "c < CAPACITY_MAX E"
      by blast
    let ?s' = "PTR (Some (b @ replicate (c - capacity E s) NUL)) c (len s)"
    have nth: "(b @ replicate (c - capacity E s) NUL) ! len s = NUL"
      using vb by (simp add: rd_def nth_append split: if_splits)
    have r: "reserve E n s = Some (True, ?s')"
    proof (cases "len s = 0")
      case True
      then have "b ! 0 = NUL" "b \<noteq> []" using vb by (auto simp: rd_def split: if_splits)
      then have "(b @ replicate (c - capacity E s) NUL)[0 := NUL] = b @ replicate (c - capacity E s) NUL"
        by (cases b) auto
      with True False c show ?thesis
        by (simp add: reserve_def poke_def wr_def)
    next
      case False
      with \<open>\<not> n \<le> capacity E s\<close> c show ?thesis
        by (simp add: reserve_def)
    qed
    have "SSOSIZE E - 1 \<le> capacity E s"
      using v by (rule valid_capacity)
    then have "valid E ?s'"
      using vb c lt nth by (auto simp: rd_def)
    with r c show ?thesis by auto
  qed
qed

lemma valid_update:
  assumes "valid E s" "length b = capacity E s + 1" "l \<le> capacity E s" "rd b l = Some NUL"
  shows "valid E (setBuf b (setLen l s))" "valid E (setLen l (setBuf b s))"
    "buffer (setBuf b (setLen l s)) = Some b" "len (setBuf b (setLen l s)) = l"
    "buffer (setLen l (setBuf b s)) = Some b" "len (setLen l (setBuf b s)) = l"
    "capacity E (setBuf b (setLen l s)) = capacity E s"
    "capacity E (setLen l (setBuf b s)) = capacity E s"
proof -
  show "valid E (setBuf b (setLen l s))" "valid E (setLen l (setBuf b s))"
    using assms by (cases s; cases "buffer s"; auto)+
  show "buffer (setBuf b (setLen l s)) = Some b" "len (setBuf b (setLen l s)) = l"
    "buffer (setLen l (setBuf b s)) = Some b" "len (setLen l (setBuf b s)) = l"
    "capacity E (setBuf b (setLen l s)) = capacity E s"
    "capacity E (setLen l (setBuf b s)) = capacity E s"
    by (cases s; simp)+
qed

lemma valid_len_bound: "env_ok E \<Longrightarrow> valid E s \<Longrightarrow> len s < 65536"
proof (cases s)
  case (SSO b l)
  assume "env_ok E" "valid E s"
  with SSO show ?thesis by (auto simp: env_ok_def)
next
  case (PTR p c l)
  assume "env_ok E" "valid E s"
  with PTR show ?thesis by (cases p) (auto simp: env_ok_def)
qed

lemma replicate_numeral: "replicate (numeral k) x = x # replicate (pred_numeral k) x"
  by (simp add: numeral_eq_Suc)

subsection \<open>Runs of the general replace and of the character-set trim\<close>

lemmas replace_defs = String_replace_def lastIndexOf_P_def last_match_pos

lemma trim_right_loop_pos:
  "0 < n \<Longrightarrow>
     trim_right_loop characters charLen b n =
       (case rd b (n - 1) of
          None \<Rightarrow> None
        | Some c \<Rightarrow>
            (case memchr_P characters c charLen of
               None \<Rightarrow> None
             | Some found \<Rightarrow>
                 if found then trim_right_loop characters charLen b (n - 1) else Some n))"
  by (cases n) (auto split: option.splits)

lemmas trim_defs = String_trim_def String_remove_def trim_right_loop_pos

subsection \<open>The growing replace on \<open>"banana"\<close>\<close>

lemma banana_buffer:
  assumes "buffer s = Some b" "content s = ''banana''" "len s \<le> capacity E s"
    "length b = capacity E s + 1" "rd b (len s) = Some NUL"
  shows "len s = 6 \<and> b = ''banana'' @ NUL # drop 7 b"
proof -
  from assms have t: "take (len s) b = ''banana''"
    by (simp add: content_def)
  then have "length (take (len s) b) = 6" by simp
  with assms have l: "len s = 6" by simp
  from assms l have "b ! 6 = NUL" "6 < length b"
    by (auto simp: rd_def split: if_splits)
  then have "take 7 b = take 6 b @ [NUL]"
    by (simp add: take_Suc_conv_app_nth [of 6 b, simplified] numeral_eq_Suc take_Suc_conv_app_nth)
  with t l have "take 7 b = ''banana'' @ [NUL]" by simp
  then have "b = (''banana'' @ [NUL]) @ drop 7 b"
    by (metis append_take_drop_id)
  with l show ?thesis by simp
qed

lemma replace_count_banana:
  "replace_count (c_str ''a'') 1 1 (''banana'' @ NUL # t) 0 6 = Some 9"
  by (simp add: mem_defs c_str_def)

lemma replace_grow_banana_SSO:
  "replace_grow (Some (c_str ''a'')) 1 (c_str ''aa'') 2 1 (SSO (''banana'' @ NUL # x # y # z # t) 6) 5
     = Some (SSO (''baanaanaa'' @ NUL # t) 9)"
  by (simp add: lastIndexOf_P_def last_match_pos mem_defs c_str_def)

lemma replace_grow_banana_PTR:
  "replace_grow (Some (c_str ''a'')) 1 (c_str ''aa'') 2 1
       (PTR (Some (''banana'' @ NUL # x # y # z # t)) c 6) 5
     = Some (PTR (Some (''baanaanaa'' @ NUL # t)) c 9)"
  by (simp add: lastIndexOf_P_def last_match_pos mem_defs c_str_def)

lemma list3:
  assumes "3 \<le> length t"
  obtains x y z t' where "t = x # y # z # t'"
proof -
  from assms obtain x t1 where 1: "t = x # t1" by (cases t) auto
  with assms obtain y t2 where 2: "t1 = y # t2" by (cases t1) auto
  with 1 assms obtain z t3 where 3: "t2 = z # t3" by (cases t2) auto
  from 1 2 3 that show thesis by simp
qed

subsection \<open>Copy into a well-formed value\<close>

lemma valid_String_empty: "env_ok E \<Longrightarrow> valid E (String_empty E)"
  by (simp add: String_empty_def env_ok_def indeterminate_def rd_def)

lemma valid_invalidate: "env_ok E \<Longrightarrow> valid E s \<Longrightarrow> valid E (invalidate E s)"
  by (cases s) (auto simp: invalidate_def env_ok_def rd_def indeterminate_def)

lemma copy_valid:
  assumes E: "env_ok E" and v: "valid E s" and n: "n < length cstr" "cstr ! n = NUL"
    "n < 4294967280"
  shows "if alloc_fails E n s then copy E cstr n s = Some (invalidate E s)
         else (\<exists>s'. copy E cstr n s = Some s' \<and> valid E s' \<and> len s' = n
                    \<and> content s' = take n cstr)"
proof -
  from v obtain b where b: "buffer s = Some b"
    by (rule valid_buffer)
  from reserve_valid [OF E v b n(3)] show ?thesis
  proof
    assume r: "reserve E n s = Some (False, s)"
    then have "alloc_fails E n s" by (simp add: alloc_fails_iff)
    moreover have "copy E cstr n s = Some (invalidate E s)"
      using r by (simp add: copy_def)
    ultimately show ?thesis by simp
  next
    assume "\<exists>s' z. reserve E n s = Some (True, s') \<and> valid E s' \<and> n \<le> capacity E s'
                 \<and> len s' = len s \<and> buffer s' = Some (b @ z)"
    then obtain s1 z where r: "reserve E n s = Some (True, s1)" and v1: "valid E s1"
      and c1: "n \<le> capacity E s1" and b1: "buffer s1 = Some (b @ z)"
      by blast
    from v1 b1 have len1: "length (b @ z) = capacity E s1 + 1"
      by (auto elim: valid_buffer)
    define b' where "b' = take (n + 1) cstr @ drop (n + 1) (b @ z)"
    have mm: "memmove_P (b @ z) 0 cstr (n + 1) = Some b'"
      using n len1 c1 by (simp add: memmove_P_def rdn_def wrn_def b'_def min_absorb2)
    have len': "length b' = capacity E s1 + 1"
      using n len1 c1 by (simp add: b'_def min_absorb2)
    have nul: "rd b' n = Some NUL"
      using n len' by (simp add: rd_def b'_def nth_append min_absorb2)
    have tk: "take n b' = take n cstr"
      using n by (simp add: b'_def min_absorb2)
    have bs: "buffer (setLen n s1) = Some (b @ z)"
      using b1 by (cases s1) simp_all
    have eq: "setBuf b' (setLen n s1) = setLen n (setBuf b' s1)"
      by (cases s1) simp_all
    have res: "copy E cstr n s = Some (setBuf b' (setLen n s1))"
      using r bs mm by (simp add: copy_def)
    have "\<not> alloc_fails E n s"
      using r by (simp add: alloc_fails_def)
    moreover have "valid E (setBuf b' (setLen n s1))" "len (setBuf b' (setLen n s1)) = n"
      "buffer (setBuf b' (setLen n s1)) = Some b'"
      using valid_update [OF v1 len' c1 nul] by simp_all
    moreover from this have "content (setBuf b' (setLen n s1)) = take n cstr"
      using tk by (simp add: content_def)
    ultimately show ?thesis using res by auto
  qed
qed

subsection \<open>substring\<close>

lemma takeWhile_prefix:
  assumes "\<forall>x \<in> set xs. P x" "\<not> P y"
  shows "takeWhile P (xs @ y # ys) = xs"
  using assms by (induction xs) auto

lemma strlen_prefix:
  assumes "NUL \<notin> set xs"
  shows "strlen (xs @ NUL # ys) = Some (length xs)"
proof -
  have "takeWhile (\<lambda>c. c \<noteq> NUL) (xs @ NUL # ys) = xs"
    using assms by (intro takeWhile_prefix) auto
  then show ?thesis by (simp add: strlen_def)
qed

subsection \<open>compareTo\<close>

lemma of_char_pos: "c \<noteq> NUL \<Longrightarrow> 0 < (of_char c :: nat)"
proof -
  assume "c \<noteq> NUL"
  then have "(of_char c :: nat) \<noteq> of_char NUL"
    by (simp only: of_char_eq_iff not_False_eq_True)
  then show ?thesis by simp
qed

lemma strcmp_cstrings:
  assumes "NUL \<notin> set xs" "NUL \<notin> set ys"
  shows "\<exists>r. strcmp (xs @ NUL # ra) (ys @ NUL # rb) = Some r
           \<and> (r < 0 \<longleftrightarrow> xs < ys) \<and> (r = 0 \<longleftrightarrow> xs = ys) \<and> (0 < r \<longleftrightarrow> ys < xs)"
  using assms
proof (induction xs arbitrary: ys)
  case Nil
  show ?case
  proof (cases ys)
    case Nil
    then show ?thesis by simp
  next
    case (Cons y ys')
    with Nil.prems have "y \<noteq> NUL" by auto
    then have "0 < (of_char y :: nat)" by (rule of_char_pos)
    with Cons \<open>y \<noteq> NUL\<close> show ?thesis by simp
  qed
next
  case (Cons x xs)
  then have x: "x \<noteq> NUL" by auto
  then have px: "0 < (of_char x :: nat)" by (rule of_char_pos)
  show ?case
  proof (cases ys)
    case Nil
    with x px show ?thesis by simp
  next
    case (Cons y ys')
    show ?thesis
    proof (cases "x = y")
      case True
      from Cons.prems Cons have "NUL \<notin> set xs" "NUL \<notin> set ys'" by auto
      from Cons.IH [OF this] True x Cons show ?thesis by simp
    next
      case False
      then have ne: "(of_char x :: nat) \<noteq> of_char y"
        by (simp only: of_char_eq_iff not_False_eq_True)
      have "x < y \<longleftrightarrow> (of_char x :: nat) < of_char y"
        by (simp only: less_char_def)
      moreover have "y < x \<longleftrightarrow> (of_char y :: nat) < of_char x"
        by (simp only: less_char_def)
      ultimately show ?thesis
        using False ne Cons by (auto simp del: less_char_simp)
    qed
  qed
qed

lemma cstring_buffer:
  assumes "is_cstring E s"
  obtains b t where "buffer s = Some b" "b = content s @ NUL # t" "NUL \<notin> set (content s)"
    "length (content s) = len s"
proof -
  from assms have v: "valid E s" and nn: "NUL \<notin> set (content s)"
    by (simp_all add: is_cstring_def)
  from v obtain b where b: "buffer s = Some b" "length b = capacity E s + 1"
    "len s \<le> capacity E s" "rd b (len s) = Some NUL"
    by (rule valid_buffer)
  then have c: "content s = take (len s) b" by (simp add: content_def)
  from b have "len s < length b" "b ! len s = NUL"
    by (auto simp: rd_def split: if_splits)
  then have "b = take (len s) b @ NUL # drop (Suc (len s)) b"
    by (metis id_take_nth_drop)
  with c have 1: "b = content s @ NUL # drop (Suc (len s)) b" by simp
  have 2: "length (content s) = len s"
    using c \<open>len s < length b\<close> by simp
  from b(1) 1 nn 2 show thesis by (rule that)
qed

subsection \<open>equalsConstantTime\<close>

lemma matches_mismatches: "matches xs ys + mismatches xs ys = length (zip xs ys)"
  unfolding matches_def mismatches_def
  by (induction xs ys rule: list_induct2') auto

lemma mismatches_zero:
  "length xs = length ys \<Longrightarrow> mismatches xs ys = 0 \<longleftrightarrow> xs = ys"
  unfolding mismatches_def
  by (induction xs ys rule: list_induct2) auto

lemma zip_take_length: "zip xs (take (length xs) ys) = zip xs ys"
  by (induction xs ys rule: list_induct2') auto

lemma loop_cstring:
  assumes "NUL \<notin> set xs" "length xs \<le> length p2" "e + length xs < 4294967296"
    "d + length xs < 4294967296"
  shows "equalsConstantTime_loop (xs @ NUL # t) p2 e d
           = Some (e + matches xs p2, d + mismatches xs p2)"
  using assms
proof (induction xs arbitrary: p2 e d)
  case Nil
  then show ?case by (simp add: matches_def mismatches_def)
next
  case (Cons x xs)
  then obtain y p2' where p2: "p2 = y # p2'" by (cases p2) auto
  from Cons.prems have x: "x \<noteq> NUL" by auto
  show ?case
  proof (cases "x = y")
    case True
    have u: "u32 (e + 1) = e + 1" using Cons.prems by (simp add: u32_def)
    have "equalsConstantTime_loop (xs @ NUL # t) p2' (e + 1) d
            = Some (e + 1 + matches xs p2', d + mismatches xs p2')"
      using Cons.prems p2 by (intro Cons.IH) auto
    with True x p2 u show ?thesis by (simp add: matches_def mismatches_def)
  next
    case False
    have u: "u32 (d + 1) = d + 1" using Cons.prems by (simp add: u32_def)
    have "equalsConstantTime_loop (xs @ NUL # t) p2' e (d + 1)
            = Some (e + matches xs p2', d + 1 + mismatches xs p2')"
      using Cons.prems p2 by (intro Cons.IH) auto
    with False x p2 u show ?thesis by (simp add: matches_def mismatches_def)
  qed
qed

subsection \<open>When the allocation step fails\<close>

lemma changeBuffer_False_iff:
  "changeBuffer E n s = Some (False, s) \<longleftrightarrow>
     SSOSIZE E - 1 \<le> n \<and>
     (CAPACITY_MAX E < u32 (n + 16) div 16 * 16 \<or> \<not> realloc_ok E (u32 (n + 16) div 16 * 16))"
  unfolding changeBuffer_def Let_def
  by (simp split: if_splits String.splits option.splits bind_splits)

lemma alloc_fails_char:
  "alloc_fails E n s \<longleftrightarrow>
     \<not> (buffer s \<noteq> None \<and> n \<le> capacity E s) \<and> SSOSIZE E - 1 \<le> n \<and>
     (CAPACITY_MAX E < u32 (n + 16) div 16 * 16 \<or> \<not> realloc_ok E (u32 (n + 16) div 16 * 16))"
  unfolding alloc_fails_iff
proof
  assume "reserve E n s = Some (False, s)"
  then show "\<not> (buffer s \<noteq> None \<and> n \<le> capacity E s) \<and> SSOSIZE E - 1 \<le> n \<and>
     (CAPACITY_MAX E < u32 (n + 16) div 16 * 16 \<or> \<not> realloc_ok E (u32 (n + 16) div 16 * 16))"
    unfolding reserve_def
    by (auto split: if_splits bind_splits dest: changeBuffer_False simp: changeBuffer_False_iff)
next
  assume "\<not> (buffer s \<noteq> None \<and> n \<le> capacity E s) \<and> SSOSIZE E - 1 \<le> n \<and>
     (CAPACITY_MAX E < u32 (n + 16) div 16 * 16 \<or> \<not> realloc_ok E (u32 (n + 16) div 16 * 16))"
  then show "reserve E n s = Some (False, s)"
    unfolding reserve_def using changeBuffer_False_iff [of E n s]
    by (auto split: if_splits bind_splits)
qed

subsection \<open>The invariant under \<open>remove\<close> and \<open>concat\<close>\<close>

lemma remove_valid:
  assumes v: "valid E s"
  shows "\<exists>s'. String_remove index count s = Some s' \<and> valid E s'
           \<and> content s' = take index (content s) @ drop (index + count) (content s)"
proof -
  from v obtain b where b: "buffer s = Some b" "length b = capacity E s + 1"
    "len s \<le> capacity E s" "rd b (len s) = Some NUL"
    by (rule valid_buffer)
  have c: "content s = take (len s) b"
    using b by (simp add: content_def)
  show ?thesis
  proof (cases "len s \<le> index \<or> count = 0")
    case True
    then have "String_remove index count s = Some s"
      by (auto simp: String_remove_def)
    moreover have "length (content s) = len s"
      using c b by simp
    then have "take index (content s) @ drop (index + count) (content s) = content s"
      using True by (cases "count = 0") simp_all
    ultimately show ?thesis using v by simp
  next
    case False
    define k where "k = (if count > len s - index then len s - index else count)"
    define newlen where "newlen = len s - k"
    have k: "0 < k" "index + k \<le> len s" "index \<le> newlen"
      using False by (auto simp: k_def newlen_def)
    define b1 where "b1 = take index b @ take (newlen - index) (drop (index + k) b)
                            @ drop newlen b"
    define b2 where "b2 = b1[newlen := NUL]"
    have l1: "length b1 = length b"
      using k b by (simp add: b1_def newlen_def)
    have mm: "memmove b index (index + k) (newlen - index) = Some b1"
      using k b by (simp add: memmove_def rdn_def wrn_def b1_def newlen_def)
    have nl: "newlen < length b" using b k by (simp add: newlen_def)
    let ?s' = "setBuf b2 (setLen newlen (setBuf b1 s))"
    have pk: "poke (setLen newlen (setBuf b1 s)) newlen NUL = Some ?s'"
      using nl l1 by (cases s) (simp_all add: poke_def wr_def b2_def)
    have eq: "?s' = setBuf b2 (setLen newlen s)"
      by (cases s) simp_all
    have res: "String_remove index count s = Some ?s'"
      using False b(1) mm pk
      unfolding String_remove_def Let_def k_def [symmetric] newlen_def [symmetric]
      by simp
    have l2: "length b2 = capacity E s + 1" using l1 b by (simp add: b2_def)
    have nc: "newlen \<le> capacity E s" using b k by (simp add: newlen_def)
    have n2: "rd b2 newlen = Some NUL" using nl l1 by (simp add: b2_def rd_def)
    have vs: "valid E ?s'" "len ?s' = newlen" "buffer ?s' = Some b2"
      unfolding eq using valid_update [OF v l2 nc n2] by simp_all
    have "take newlen b2 = take index b @ take (newlen - index) (drop (index + k) b)"
      using k b by (simp add: b2_def b1_def newlen_def)
    also have "\<dots> = take index (content s) @ drop (index + count) (content s)"
      using k b False by (auto simp: c k_def newlen_def drop_take min_def add.commute)
    finally have "content ?s' = take index (content s) @ drop (index + count) (content s)"
      using vs by (simp add: content_def)
    with res vs show ?thesis by simp
  qed
qed

lemma concat_valid:
  assumes E: "env_ok E" and v: "valid E s" and n: "n \<le> length cstr" "n < 4294900000"
  shows "concat_cstr_len E (Some cstr) n s = Some (False, s) \<or>
         (\<exists>s'. concat_cstr_len E (Some cstr) n s = Some (True, s') \<and> valid E s'
               \<and> content s' = content s @ take n cstr)"
proof -
  from v obtain b where b: "buffer s = Some b" "length b = capacity E s + 1"
    "len s \<le> capacity E s" "rd b (len s) = Some NUL"
    by (rule valid_buffer)
  have l: "len s < 65536" using E v by (rule valid_len_bound)
  define m where "m = len s + n"
  have u: "u32 (len s + n) = m" using l n by (simp add: u32_def m_def)
  have mb: "m < 4294967280" using l n by (simp add: m_def)
  show ?thesis
  proof (cases "n = 0")
    case True
    then have "concat_cstr_len E (Some cstr) n s = Some (True, s)"
      by (simp add: concat_cstr_len_def)
    with True v show ?thesis by simp
  next
    case False
    from reserve_valid [OF E v b(1) mb] show ?thesis
    proof
      assume "reserve E m s = Some (False, s)"
      then have "concat_cstr_len E (Some cstr) n s = Some (False, s)"
        using False u by (simp add: concat_cstr_len_def)
      then show ?thesis ..
    next
      assume "\<exists>s' z. reserve E m s = Some (True, s') \<and> valid E s' \<and> m \<le> capacity E s'
                 \<and> len s' = len s \<and> buffer s' = Some (b @ z)"
      then obtain s1 z where r: "reserve E m s = Some (True, s1)" and v1: "valid E s1"
        and c1: "m \<le> capacity E s1" and l1: "len s1 = len s" and b1: "buffer s1 = Some (b @ z)"
        by blast
      from v1 b1 have len1: "length (b @ z) = capacity E s1 + 1"
        by (auto elim: valid_buffer)
      have lb: "len s < length b" using b by simp
      define b2 where "b2 = take (len s) b @ take n cstr @ drop m (b @ z)"
      define b3 where "b3 = b2[m := NUL]"
      have mm: "memmove_P (b @ z) (len s) cstr n = Some b2"
        using lb len1 c1 n
        by (simp add: memmove_P_def rdn_def wrn_def b2_def m_def min_absorb2)
      have len2: "length b2 = capacity E s1 + 1"
        using lb len1 c1 n by (simp add: b2_def m_def min_absorb2)
      then have len3: "length b3 = capacity E s1 + 1" by (simp add: b3_def)
      have t3: "take m b3 = take (len s) b @ take n cstr"
        using lb n by (simp add: b3_def b2_def m_def min_absorb2)
      have nul3: "rd b3 m = Some NUL"
        using len2 c1 by (simp add: b3_def rd_def)
      let ?s' = "setBuf b3 (setLen m (setBuf b2 s1))"
      have pk: "poke (setLen m (setBuf b2 s1)) m NUL = Some ?s'"
        using len2 c1 by (cases s1) (simp_all add: poke_def wr_def b3_def)
      have eq: "?s' = setBuf b3 (setLen m s1)"
        by (cases s1) simp_all
      have res: "concat_cstr_len E (Some cstr) n s = Some (True, ?s')"
        using False r u l1 b1 mm pk by (simp add: concat_cstr_len_def)
      have vs: "valid E ?s'" "len ?s' = m" "buffer ?s' = Some b3"
        unfolding eq using valid_update [OF v1 len3 c1 nul3] by simp_all
      then have "content ?s' = content s @ take n cstr"
        using t3 b by (simp add: content_def)
      with res vs show ?thesis by auto
    qed
  qed
qed

subsection \<open>The general replace without a match\<close>

lemma cstring_content:
  assumes "is_cstring E s" "buffer s = Some b"
  shows "cstring b 0 = Some (content s)" "strlen b = Some (len s)"
    "memmove b 0 0 (Suc (len s)) = Some b"
proof -
  from assms(1) obtain b' t where "buffer s = Some b'" and bt: "b' = content s @ NUL # t"
    and nn: "NUL \<notin> set (content s)" and l: "length (content s) = len s"
    by (rule cstring_buffer)
  with assms(2) have b: "b = content s @ NUL # t" by simp
  have tw: "takeWhile (\<lambda>c. c \<noteq> NUL) (content s @ NUL # t) = content s"
    using nn by (intro takeWhile_prefix) auto
  show "cstring b 0 = Some (content s)"
    unfolding b using tw by (simp add: cstring_def)
  show "strlen b = Some (len s)"
    unfolding b using tw l by (simp add: strlen_def)
  have "take (Suc (len s)) b @ drop (Suc (len s)) b = b"
    by (rule append_take_drop_id)
  moreover have "Suc (len s) \<le> length b"
    unfolding b using l by simp
  ultimately show "memmove b 0 0 (Suc (len s)) = Some b"
    by (simp add: memmove_def rdn_def wrn_def min_absorb2 del: take_Suc drop_Suc)
qed

text \<open>
  When the pattern does not occur in the content of a C-string value, the value is left
  as it is in all three branches of \<open>_replace\<close>; the returned flag is false in the growing
  branch and true in the equal-length and the shrinking branch.
\<close>

lemma replace_no_match:
  assumes s: "is_cstring E s" and l: "len s \<noteq> 0" and f: "findLen \<noteq> 0"
    and n: "cstring findStr 0 = Some needle" and m: "first_match needle (content s) = None"
  shows "String_replace E (Some findStr) findLen replaceStr replaceLen s
           = Some (s32 (int replaceLen - int findLen) \<le> 0, s)"
proof -
  from s have v: "valid E s" by (simp add: is_cstring_def)
  then obtain b where b: "buffer s = Some b" by (rule valid_buffer)
  note cs = cstring_content [OF s b]
  have st: "strstr_P b 0 findStr = Some None"
    using cs(1) n m by (simp add: strstr_P_def)
  have sb: "setBuf b s = s" using b v by (rule setBuf_same)
  have sl: "setLen (len s) s = s" by (cases s) simp_all
  define diff where "diff = s32 (int replaceLen - int findLen)"
  have eq: "replace_equal findStr replaceStr replaceLen b 0 = Some b"
    by (subst replace_equal.simps) (simp add: st)
  have sh: "replace_shrink findStr findLen replaceStr replaceLen diff b (len s) 0 0
              = Some (b, len s)"
    by (subst replace_shrink.simps) (simp add: st cs)
  have gr: "replace_count findStr findLen diff b 0 (len s) = Some (len s)"
    by (subst replace_count.simps) (simp add: st)
  show ?thesis
    using l f b eq sh gr sb sl
    unfolding String_replace_def Let_def diff_def [symmetric]
    by (auto simp del: replace_equal.simps replace_shrink.simps replace_count.simps)
qed

subsection \<open>The leading scan of the character-set trim\<close>

lemma trim_left_loop_ge: "trim_left_loop characters charLen b i = Some r \<Longrightarrow> i \<le> r"
proof (induction characters charLen b i rule: trim_left_loop.induct)
  case (1 characters charLen b remove)
  from "1.prems" obtain c found where c: "rd b remove = Some c"
    "memchr_P characters c charLen = Some found"
    by (subst (asm) trim_left_loop.simps) (auto split: option.splits)
  show ?case
  proof (cases found)
    case True
    with "1.prems" c have "trim_left_loop characters charLen b (remove + 1) = Some r"
      by (subst (asm) trim_left_loop.simps) simp
    with "1.IH" [OF c True] show ?thesis by simp
  next
    case False
    with "1.prems" c show ?thesis
      by (subst (asm) trim_left_loop.simps) simp
  qed
qed

lemma trim_left_loop_skip:
  assumes "\<forall>j. i \<le> j \<and> j \<le> l \<longrightarrow> (\<exists>c. rd b j = Some c \<and> memchr_P characters c charLen = Some True)"
    and "i \<le> l + 1"
  shows "trim_left_loop characters charLen b i = trim_left_loop characters charLen b (l + 1)"
  using assms
proof (induction "l + 1 - i" arbitrary: i)
  case 0
  then show ?case by simp
next
  case (Suc k)
  then have "i \<le> l" by simp
  with Suc.prems obtain c where c: "rd b i = Some c" "memchr_P characters c charLen = Some True"
    by blast
  have "trim_left_loop characters charLen b (i + 1)
          = trim_left_loop characters charLen b (l + 1)"
    using Suc by (intro Suc.hyps) auto
  with c show ?case
    by (subst trim_left_loop.simps) simp
qed

text \<open>
  Whenever every byte of the content is in the character set, the leading scan goes past
  the terminator: the set is searched over \<open>charLen + 1\<close> bytes, its own terminator
  included, so the NUL at offset \<open>len\<close> is found in it. The scan ends above \<open>len\<close>, or leaves
  the buffer.
\<close>

lemma trim_left_scan_overruns:
  assumes s: "is_cstring E s" and b: "buffer s = Some b"
    and cs: "charLen < length characters" "characters ! charLen = NUL"
    and all: "set (content s) \<subseteq> set (take charLen characters)"
  shows "trim_left_loop characters (charLen + 1) b 0 = None
         \<or> (\<exists>r. trim_left_loop characters (charLen + 1) b 0 = Some r \<and> len s < r)"
proof -
  from s obtain b' t where "buffer s = Some b'" and bt: "b' = content s @ NUL # t"
    and l: "length (content s) = len s"
    by (rule cstring_buffer)
  with b have bb: "b = content s @ NUL # t" by simp
  have tk: "take (Suc charLen) characters = take charLen characters @ [NUL]"
    using cs by (simp add: take_Suc_conv_app_nth)
  have "\<exists>c. rd b j = Some c \<and> memchr_P characters c (charLen + 1) = Some True" if "j \<le> len s" for j
  proof (cases "j < len s")
    case True
    then have "b ! j = content s ! j" "j < length b" "content s ! j \<in> set (content s)"
      unfolding bb using l by (simp_all add: nth_append)
    with all show ?thesis by (auto simp: rd_def memchr_P_def tk simp del: take_Suc)
  next
    case False
    with that have "j = len s" by simp
    then have "b ! j = NUL" "j < length b"
      unfolding bb using l by (simp_all add: nth_append)
    then show ?thesis by (simp add: rd_def memchr_P_def tk del: take_Suc)
  qed
  then have "trim_left_loop characters (charLen + 1) b 0
               = trim_left_loop characters (charLen + 1) b (len s + 1)"
    by (intro trim_left_loop_skip) auto
  then show ?thesis
    using trim_left_loop_ge [of characters "charLen + 1" b "len s + 1"]
    by (cases "trim_left_loop characters (charLen + 1) b (len s + 1)") auto
qed

subsection \<open>The self-concatenation\<close>

lemma concat_self:
  assumes E: "env_ok E" and v: "valid E s"
  shows "if alloc_fails E (2 * len s) s then concat_String E Self s = Some (False, s)
         else (\<exists>s'. concat_String E Self s = Some (True, s') \<and> valid E s'
                    \<and> content s' = content s @ content s \<and> len s' = 2 * len s)"
proof -
  from v obtain b where b: "buffer s = Some b" "length b = capacity E s + 1"
    "len s \<le> capacity E s" "rd b (len s) = Some NUL"
    by (rule valid_buffer)
  let ?l = "len s"
  have l: "?l < 65536" using E v by (rule valid_len_bound)
  then have u: "u32 (2 * ?l) = 2 * ?l" by (simp add: u32_def)
  show ?thesis
  proof (cases "?l = 0")
    case True
    with b have "reserve E 0 s = Some (True, s)"
      by (simp add: reserve_def)
    then have "\<not> alloc_fails E (2 * ?l) s"
      using True by (simp add: alloc_fails_def)
    moreover have "concat_String E Self s = Some (True, s)"
      using True b by (simp add: concat_String_def)
    moreover have "content s = []"
      using True b by (simp add: content_def)
    ultimately show ?thesis using v True by simp
  next
    case False
    have n: "2 * ?l < 4294967280" using l by simp
    from reserve_valid [OF E v b(1) n] show ?thesis
    proof
      assume r: "reserve E (2 * ?l) s = Some (False, s)"
      then have "alloc_fails E (2 * ?l) s" by (simp add: alloc_fails_iff)
      moreover have "concat_String E Self s = Some (False, s)"
        using False b r u by (simp add: concat_String_def)
      ultimately show ?thesis by simp
    next
      assume "\<exists>s' z. reserve E (2 * ?l) s = Some (True, s') \<and> valid E s'
                 \<and> 2 * ?l \<le> capacity E s' \<and> len s' = ?l \<and> buffer s' = Some (b @ z)"
      then obtain s1 z where r: "reserve E (2 * ?l) s = Some (True, s1)" and v1: "valid E s1"
        and c1: "2 * ?l \<le> capacity E s1" and l1: "len s1 = ?l" and b1: "buffer s1 = Some (b @ z)"
        by blast
      from v1 b1 have len1: "length (b @ z) = capacity E s1 + 1"
        by (auto elim: valid_buffer)
      have lb: "?l < length b" using b by simp
      define b2 where "b2 = take ?l b @ take ?l b @ drop (2 * ?l) (b @ z)"
      define b3 where "b3 = b2[2 * ?l := NUL]"
      have mm: "memmove (b @ z) ?l 0 ?l = Some b2"
        using lb len1 c1 by (simp add: memmove_def rdn_def wrn_def b2_def mult_2)
      have len2: "length b2 = capacity E s1 + 1"
        using lb len1 c1 by (simp add: b2_def)
      then have len3: "length b3 = capacity E s1 + 1" by (simp add: b3_def)
      have t3: "take (2 * ?l) b3 = take ?l b @ take ?l b"
        using lb by (simp add: b3_def b2_def mult_2)
      have nul3: "rd b3 (2 * ?l) = Some NUL"
        using len2 c1 by (simp add: b3_def rd_def)
      let ?s' = "setBuf b3 (setLen (2 * ?l) (setBuf b2 s1))"
      have pk: "poke (setLen (2 * ?l) (setBuf b2 s1)) (2 * ?l) NUL = Some ?s'"
        using len2 c1 by (cases s1) (simp_all add: poke_def wr_def b3_def)
      have eq: "?s' = setBuf b3 (setLen (2 * ?l) s1)"
        by (cases s1) simp_all
      have res: "concat_String E Self s = Some (True, ?s')"
        using False b r u l1 b1 mm pk by (simp add: concat_String_def)
      have "\<not> alloc_fails E (2 * ?l) s"
        using r by (simp add: alloc_fails_def)
      moreover have "valid E ?s'" "len ?s' = 2 * ?l" "buffer ?s' = Some b3"
        unfolding eq using valid_update [OF v1 len3 c1 nul3] by simp_all
      moreover from this have "content ?s' = content s @ content s"
        using t3 b by (simp add: content_def)
      ultimately show ?thesis using res by auto
    qed
  qed
qed

lemma concat_self_valid:
  assumes E: "env_ok E" and v: "valid E s"
  shows "\<exists>r s'. concat_String E Self s = Some (r, s') \<and> valid E s'"
  using concat_self [OF E v] v by (cases "alloc_fails E (2 * len s) s") auto

subsection \<open>The invariant under \<open>insert\<close>, the flash concat, the byte loops and \<open>changeBuffer\<close>\<close>

lemma setBuf_setLen: "setBuf b (setLen n s) = setLen n (setBuf b s)"
  by (cases s) simp_all

lemma buffer_setLen: "buffer (setLen n s) = buffer s"
  by (cases s) simp_all

lemma poke_valid:
  assumes v: "valid E s" and lb: "length b = capacity E s + 1"
    and p: "poke (setLen n (setBuf b s)) n NUL = Some s'"
  shows "valid E s'"
proof -
  have bs: "buffer (setLen n (setBuf b s)) = Some b"
    by (cases s) simp_all
  with p obtain b' where w: "wr b n NUL = Some b'"
    and s': "s' = setBuf b' (setLen n (setBuf b s))"
    by (auto simp: poke_def split: bind_splits)
  from w have n: "n < length b" and b': "b' = b[n := NUL]"
    by (auto simp: wr_def split: if_splits)
  have eq: "s' = setLen n (setBuf b' s)"
    unfolding s' by (cases s) simp_all
  have "length b' = capacity E s + 1" "n \<le> capacity E s" "rd b' n = Some NUL"
    using lb n b' by (simp_all add: rd_def)
  with v have "valid E (setLen n (setBuf b' s))"
    by (rule valid_update(2))
  with eq show ?thesis by simp
qed

lemma poke_total:
  assumes "n < length b"
  shows "\<exists>s'. poke (setLen n (setBuf b s)) n NUL = Some s'"
  using assms by (cases s) (simp_all add: poke_def wr_def)

lemma insert_valid:
  assumes E: "env_ok E" and v: "valid E s" and n: "n \<le> length other" "n < 4294900000"
  shows "\<exists>s'. insert_cstr_len E position other n s = Some s' \<and> valid E s'"
proof (cases "position > len s")
  case True
  then show ?thesis using v by (simp add: insert_cstr_len_def)
next
  case False
  then have pos: "position \<le> len s" by simp
  from v obtain b where b: "buffer s = Some b" "length b = capacity E s + 1"
    "len s \<le> capacity E s" "rd b (len s) = Some NUL"
    by (rule valid_buffer)
  have l: "len s < 65536" using E v by (rule valid_len_bound)
  define m where "m = len s + n"
  have u: "u32 (len s + n) = m" using l n by (simp add: u32_def m_def)
  have mb: "m < 4294967280" using l n by (simp add: m_def)
  from reserve_valid [OF E v b(1) mb] show ?thesis
  proof
    assume r: "reserve E m s = Some (False, s)"
    then show ?thesis using False u v by (simp add: insert_cstr_len_def)
  next
    assume "\<exists>s' z. reserve E m s = Some (True, s') \<and> valid E s' \<and> m \<le> capacity E s'
                 \<and> len s' = len s \<and> buffer s' = Some (b @ z)"
    then obtain s1 z where r: "reserve E m s = Some (True, s1)" and v1: "valid E s1"
      and c1: "m \<le> capacity E s1" and l1: "len s1 = len s" and b1: "buffer s1 = Some (b @ z)"
      by blast
    from v1 b1 have len1: "length (b @ z) = capacity E s1 + 1"
      by (auto elim: valid_buffer)
    have "\<exists>x. memmove (b @ z) (position + n) position (len s - position) = Some x"
      using len1 c1 pos by (simp add: memmove_def rdn_def wrn_def m_def)
    then obtain x1 where x1: "memmove (b @ z) (position + n) position (len s - position) = Some x1"
      by blast
    then have lx1: "length x1 = capacity E s1 + 1"
      using len1 by (simp add: memmove_length)
    have "\<exists>x. memmove_P x1 position other n = Some x"
      using lx1 c1 pos n by (simp add: memmove_P_def rdn_def wrn_def m_def)
    then obtain x2 where x2: "memmove_P x1 position other n = Some x2"
      by blast
    then have lx2: "length x2 = capacity E s1 + 1"
      using lx1 by (simp add: memmove_P_length)
    from lx2 c1 obtain s' where pk: "poke (setLen m (setBuf x2 s1)) m NUL = Some s'"
      using poke_total [of m x2 s1] by auto
    have v': "valid E s'"
      using v1 lx2 pk by (rule poke_valid)
    have "insert_cstr_len E position other n s = Some s'"
      using False u r b1 x1 x2 pk l1
      by (simp add: insert_cstr_len_def buffer_setLen setBuf_setLen)
    with v' show ?thesis by simp
  qed
qed

lemma nth_takeWhile_end:
  "x \<in> set xs \<Longrightarrow> \<not> P x \<Longrightarrow> \<not> P (xs ! length (takeWhile P xs))"
  by (induction xs) auto

lemma concat_P_valid:
  assumes E: "env_ok E" and v: "valid E s" and st: "NUL \<in> set str" "length str < 4294900000"
  shows "\<exists>r s'. concat_P E (Some str) s = Some (r, s') \<and> valid E s'"
proof -
  define n where "n = length (takeWhile (\<lambda>c. c \<noteq> NUL) str)"
  have sl: "strlen str = Some n"
    using st by (simp add: strlen_def n_def)
  have nl: "n < length str"
    unfolding n_def using st(1) by (rule takeWhile_shorter) simp
  have nul: "str ! n = NUL"
    using nth_takeWhile_end [of NUL str "\<lambda>c. c \<noteq> NUL"] st(1) by (simp add: n_def)
  from v obtain b where b: "buffer s = Some b" "length b = capacity E s + 1"
    "len s \<le> capacity E s" "rd b (len s) = Some NUL"
    by (rule valid_buffer)
  have l: "len s < 65536" using E v by (rule valid_len_bound)
  define m where "m = len s + n"
  have u: "u32 (len s + n) = m" using l nl st by (simp add: u32_def m_def)
  have mb: "m < 4294967280" using l nl st by (simp add: m_def)
  show ?thesis
  proof (cases "n = 0")
    case True
    then show ?thesis using sl v by (auto simp: concat_P_def)
  next
    case False
    from reserve_valid [OF E v b(1) mb] show ?thesis
    proof
      assume r: "reserve E m s = Some (False, s)"
      then show ?thesis using False u v sl by (auto simp: concat_P_def)
    next
      assume "\<exists>s' z. reserve E m s = Some (True, s') \<and> valid E s' \<and> m \<le> capacity E s'
                   \<and> len s' = len s \<and> buffer s' = Some (b @ z)"
      then obtain s1 z where r: "reserve E m s = Some (True, s1)" and v1: "valid E s1"
        and c1: "m \<le> capacity E s1" and l1: "len s1 = len s" and b1: "buffer s1 = Some (b @ z)"
        by blast
      from v1 b1 have len1: "length (b @ z) = capacity E s1 + 1"
        by (auto elim: valid_buffer)
      define x where "x = take (len s) (b @ z) @ take (Suc n) str @ drop (Suc m) (b @ z)"
      have sn: "Suc n \<le> length str" using nl by simp
      have mm: "memmove_P (b @ z) (len s) str (n + 1) = Some x"
        using len1 c1 sn by (simp add: memmove_P_def rdn_def wrn_def m_def x_def)
      have lx: "length x = capacity E s1 + 1"
        using mm len1 by (simp add: memmove_P_length)
      have "x ! m = NUL"
        using len1 c1 sn nul b(2,3) by (simp add: x_def m_def nth_append)
      then have nx: "rd x m = Some NUL"
        using lx c1 by (simp add: rd_def)
      have "valid E (setLen m (setBuf x s1))"
        using v1 lx c1 nx by (rule valid_update(2))
      moreover have "concat_P E (Some str) s = Some (True, setLen m (setBuf x s1))"
        using False u r b1 mm sl l1 by (simp add: concat_P_def)
      ultimately show ?thesis by auto
    qed
  qed
qed

lemma case_loop_cstring:
  "NUL \<notin> set xs \<Longrightarrow> case_loop f (xs @ NUL # t) = Some (map f xs @ NUL # t)"
  by (induction xs) auto

lemma replace_char_loop_cstring:
  "NUL \<notin> set xs \<Longrightarrow>
   replace_char_loop f r (xs @ NUL # t) = Some (map (\<lambda>x. if x = f then r else x) xs @ NUL # t)"
  by (induction xs) auto

lemma nul_prefix:
  assumes "valid E s"
  obtains b xs t where "buffer s = Some b" "b = xs @ NUL # t" "NUL \<notin> set xs"
    "length xs \<le> len s"
proof -
  from assms obtain b where b: "buffer s = Some b" "length b = capacity E s + 1"
    "len s \<le> capacity E s" "rd b (len s) = Some NUL"
    by (rule valid_buffer)
  then have bl: "len s < length b" "b ! len s = NUL"
    by (auto simp: rd_def split: if_splits)
  then have "NUL \<in> set b" by (metis nth_mem)
  then obtain xs t where x: "b = xs @ NUL # t" "NUL \<notin> set xs"
    by (auto dest: split_list_first)
  have "length xs \<le> len s"
  proof (rule ccontr)
    assume "\<not> length xs \<le> len s"
    then have lt: "len s < length xs" by simp
    then have "b ! len s = xs ! len s" unfolding x(1) by (simp add: nth_append)
    moreover have "xs ! len s \<in> set xs" using lt by simp
    ultimately show False using bl(2) x(2) by metis
  qed
  with b(1) x show ?thesis by (rule that)
qed

lemma map_prefix_valid:
  assumes v: "valid E s" and b: "buffer s = Some (xs @ NUL # t)" and l: "length xs \<le> len s"
  shows "valid E (setBuf (map g xs @ NUL # t) s)"
proof -
  from v obtain b' where b': "buffer s = Some b'" "length b' = capacity E s + 1"
    "len s \<le> capacity E s" "rd b' (len s) = Some NUL"
    by (rule valid_buffer)
  with b have e: "b' = xs @ NUL # t" by simp
  let ?x = "map g xs @ NUL # t"
  have lx: "length ?x = capacity E s + 1" using b'(2) e by simp
  from l have nl: "\<not> len s < length xs" by simp
  from b'(4) e have "(xs @ NUL # t) ! len s = NUL"
    by (auto simp: rd_def split: if_splits)
  moreover have "?x ! len s = (xs @ NUL # t) ! len s"
    using nl by (simp add: nth_append)
  ultimately have "rd ?x (len s) = Some NUL"
    using lx b'(3) by (simp add: rd_def)
  with v lx b'(3) have "valid E (setBuf ?x (setLen (len s) s))"
    by (intro valid_update(1))
  moreover have "setLen (len s) s = s" by (cases s) simp_all
  ultimately show ?thesis by simp
qed

lemma toLowerCase_valid:
  assumes v: "valid E s"
  shows "\<exists>s'. toLowerCase f s = Some s' \<and> valid E s'"
proof -
  from v obtain b xs t where b: "buffer s = Some b" "b = xs @ NUL # t" "NUL \<notin> set xs"
    "length xs \<le> len s"
    by (rule nul_prefix)
  have "toLowerCase f s = Some (setBuf (map f xs @ NUL # t) s)"
    using b case_loop_cstring [OF b(3), of f t] by (simp add: toLowerCase_def)
  moreover from b have "buffer s = Some (xs @ NUL # t)" by simp
  with v have "valid E (setBuf (map f xs @ NUL # t) s)"
    using b(4) by (rule map_prefix_valid)
  ultimately show ?thesis by simp
qed

lemma toUpperCase_valid:
  assumes v: "valid E s"
  shows "\<exists>s'. toUpperCase f s = Some s' \<and> valid E s'"
proof -
  from v obtain b xs t where b: "buffer s = Some b" "b = xs @ NUL # t" "NUL \<notin> set xs"
    "length xs \<le> len s"
    by (rule nul_prefix)
  have "toUpperCase f s = Some (setBuf (map f xs @ NUL # t) s)"
    using b case_loop_cstring [OF b(3), of f t] by (simp add: toUpperCase_def)
  moreover from b have "buffer s = Some (xs @ NUL # t)" by simp
  with v have "valid E (setBuf (map f xs @ NUL # t) s)"
    using b(4) by (rule map_prefix_valid)
  ultimately show ?thesis by simp
qed

lemma replace_char_valid:
  assumes v: "valid E s"
  shows "\<exists>s'. replace_char f r s = Some (True, s') \<and> valid E s'"
proof -
  from v obtain b xs t where b: "buffer s = Some b" "b = xs @ NUL # t" "NUL \<notin> set xs"
    "length xs \<le> len s"
    by (rule nul_prefix)
  let ?g = "\<lambda>x. if x = f then r else x"
  have "replace_char f r s = Some (True, setBuf (map ?g xs @ NUL # t) s)"
    using b replace_char_loop_cstring [OF b(3), of f r t] by (simp add: replace_char_def)
  moreover from b have "buffer s = Some (xs @ NUL # t)" by simp
  with v have "valid E (setBuf (map ?g xs @ NUL # t) s)"
    using b(4) by (rule map_prefix_valid)
  ultimately show ?thesis by simp
qed

lemma changeBuffer_valid:
  assumes E: "env_ok E" and v: "valid E s" and n: "capacity E s < n" "n < 4294967280"
  shows "\<exists>r s'. changeBuffer E n s = Some (r, s') \<and> valid E s'"
proof -
  from v obtain b where b: "buffer s = Some b" "length b = capacity E s + 1"
    "len s \<le> capacity E s" "rd b (len s) = Some NUL"
    by (rule valid_buffer)
  from changeBuffer_grow [OF E v b(1) n] show ?thesis
  proof
    assume "changeBuffer E n s = Some (False, s)"
    with v show ?thesis by auto
  next
    assume "\<exists>c. changeBuffer E n s
                 = Some (True, PTR (Some (b @ replicate (c - capacity E s) NUL)) c (len s))
              \<and> n \<le> c \<and> c < CAPACITY_MAX E"
    then obtain c where c: "changeBuffer E n s
                 = Some (True, PTR (Some (b @ replicate (c - capacity E s) NUL)) c (len s))"
      "n \<le> c" "c < CAPACITY_MAX E"
      by blast
    have "SSOSIZE E - 1 \<le> capacity E s" using v by (rule valid_capacity)
    then have "valid E (PTR (Some (b @ replicate (c - capacity E s) NUL)) c (len s))"
      using b c(2,3) n(1) by (auto simp: rd_def nth_append split: if_splits)
    with c(1) show ?thesis by auto
  qed
qed

lemma trim_space_valid:
  assumes v: "valid E s" and r: "String_trim_space isspace type s = Some s'"
  shows "valid E s'"
proof (cases "len s = 0")
  case True
  with r v show ?thesis by (simp add: String_trim_space_def)
next
  case False
  from v obtain b where b: "buffer s = Some b" "length b = capacity E s + 1"
    by (rule valid_buffer)
  from r False b obtain b1 n where lb: "length b1 = length b"
    and p: "poke (setLen n (setBuf b1 s)) n NUL = Some s'"
    by (auto simp: String_trim_space_def Let_def split: bind_splits if_splits
        dest: memmove_length)
  from v show ?thesis
    by (rule poke_valid) (use lb b p in simp_all)
qed

subsection \<open>The equal-length and the shrinking replace\<close>

lemma takeWhile_length_le:
  assumes "i < length xs" "\<not> P (xs ! i)"
  shows "length (takeWhile P xs) \<le> i"
proof (rule ccontr)
  assume "\<not> length (takeWhile P xs) \<le> i"
  then have lt: "i < length (takeWhile P xs)" by simp
  then have "takeWhile P xs ! i = xs ! i" by (rule takeWhile_nth)
  moreover from lt have "takeWhile P xs ! i \<in> set (takeWhile P xs)" by simp
  then have "P (takeWhile P xs ! i)" by (auto dest: set_takeWhileD)
  ultimately show False using assms(2) by simp
qed

lemma cstring_upto:
  assumes "off \<le> l" "l < length b" "b ! l = NUL"
  obtains hay where "cstring b off = Some hay" "off + length hay \<le> l"
proof -
  have i: "l - off < length (drop off b)" "drop off b ! (l - off) = NUL"
    using assms by simp_all
  then have "NUL \<in> set (drop off b)" by (metis nth_mem)
  then have c: "cstring b off = Some (takeWhile (\<lambda>c. c \<noteq> NUL) (drop off b))"
    by (simp add: cstring_def)
  have "length (takeWhile (\<lambda>c. c \<noteq> NUL) (drop off b)) \<le> l - off"
    using i by (intro takeWhile_length_le) simp_all
  then have "off + length (takeWhile (\<lambda>c. c \<noteq> NUL) (drop off b)) \<le> l"
    using assms(1) by simp
  with c show ?thesis by (rule that)
qed

lemma wrn_nth:
  assumes "wrn b off xs = Some b'" "i < off \<or> off + length xs \<le> i"
  shows "b' ! i = b ! i"
proof -
  from assms(1) have le: "off + length xs \<le> length b"
    and b': "b' = take off b @ xs @ drop (off + length xs) b"
    by (auto simp: wrn_def split: if_splits)
  from assms(2) show ?thesis
  proof
    assume "i < off"
    with le show ?thesis by (simp add: b' nth_append)
  next
    assume a: "off + length xs \<le> i"
    with le have "b' ! i = (xs @ drop (off + length xs) b) ! (i - off)"
      by (simp add: b' nth_append)
    also have "\<dots> = drop (off + length xs) b ! (i - off - length xs)"
    proof -
      from a have "\<not> i - off < length xs" by linarith
      then show ?thesis by (simp add: nth_append)
    qed
    also have "\<dots> = b ! i"
      using a le by simp
    finally show ?thesis .
  qed
qed

lemma wrn_nth_in:
  assumes "wrn b off xs = Some b'" "off \<le> i" "i < off + length xs"
  shows "b' ! i = xs ! (i - off)"
proof -
  from assms(1) have le: "off + length xs \<le> length b"
    and b': "b' = take off b @ xs @ drop (off + length xs) b"
    by (auto simp: wrn_def split: if_splits)
  from assms(2) le have "b' ! i = (xs @ drop (off + length xs) b) ! (i - off)"
    by (simp add: b' nth_append)
  also have "\<dots> = xs ! (i - off)"
  proof -
    from assms(2,3) have "i - off < length xs" by linarith
    then show ?thesis by (simp add: nth_append)
  qed
  finally show ?thesis .
qed

lemma memmove_P_nth:
  assumes "memmove_P b dst from n = Some b'" "i < dst \<or> dst + n \<le> i"
  shows "b' ! i = b ! i"
proof -
  from assms(1) obtain xs where "rdn from 0 n = Some xs" and w: "wrn b dst xs = Some b'"
    by (auto simp: memmove_P_def split: bind_splits)
  then have "length xs = n" by (auto simp: rdn_def split: if_splits)
  with w assms(2) show ?thesis by (intro wrn_nth) auto
qed

lemma memmove_nth:
  assumes "memmove b dst src n = Some b'" "i < dst \<or> dst + n \<le> i"
  shows "b' ! i = b ! i"
proof -
  from assms(1) obtain xs where "rdn b src n = Some xs" and w: "wrn b dst xs = Some b'"
    by (auto simp: memmove_def split: bind_splits)
  then have "length xs = n" by (auto simp: rdn_def split: if_splits)
  with w assms(2) show ?thesis by (intro wrn_nth) auto
qed

lemma memmove_P_total:
  "n \<le> length from \<Longrightarrow> dst + n \<le> length b \<Longrightarrow> \<exists>b'. memmove_P b dst from n = Some b'"
  by (simp add: memmove_P_def rdn_def wrn_def)

lemma memmove_total:
  "src + n \<le> length b \<Longrightarrow> dst + n \<le> length b \<Longrightarrow> \<exists>b'. memmove b dst src n = Some b'"
  by (simp add: memmove_def rdn_def wrn_def)

lemma replace_equal_ok:
  "cstring findStr 0 = Some needle \<Longrightarrow> length needle = replaceLen \<Longrightarrow> 0 < replaceLen \<Longrightarrow>
   replaceLen \<le> length replaceStr \<Longrightarrow> readFrom \<le> l \<Longrightarrow> l < length b \<Longrightarrow> b ! l = NUL \<Longrightarrow>
   \<exists>b'. replace_equal findStr replaceStr replaceLen b readFrom = Some b'
        \<and> length b' = length b \<and> b' ! l = NUL"
proof (induction findStr replaceStr replaceLen b readFrom rule: replace_equal.induct)
  case (1 findStr replaceStr replaceLen b readFrom)
  from "1.prems"(5,6,7) obtain hay where hay: "cstring b readFrom = Some hay"
    "readFrom + length hay \<le> l"
    by (rule cstring_upto)
  show ?case
  proof (cases "first_match needle hay")
    case None
    then have "strstr_P b readFrom findStr = Some None"
      using hay "1.prems"(1) by (simp add: strstr_P_def)
    then have "replace_equal findStr replaceStr replaceLen b readFrom = Some b"
      by (subst replace_equal.simps) simp
    with "1.prems"(7) show ?thesis by simp
  next
    case (Some i)
    define foundAt where "foundAt = readFrom + i"
    have st: "strstr_P b readFrom findStr = Some (Some foundAt)"
      using hay "1.prems"(1) Some by (simp add: strstr_P_def foundAt_def)
    have le: "foundAt + replaceLen \<le> l"
      using first_match_le [OF Some] hay(2) "1.prems"(2) by (simp add: foundAt_def)
    with "1.prems"(4,6) obtain b' where mm: "memmove_P b foundAt replaceStr replaceLen = Some b'"
      using memmove_P_total [of replaceLen replaceStr foundAt b] by auto
    have lb: "length b' = length b" using mm by (rule memmove_P_length)
    have nb: "b' ! l = b ! l" using mm le by (intro memmove_P_nth) auto
    have adv: "\<not> foundAt + replaceLen \<le> readFrom"
      using "1.prems"(3) by (simp add: foundAt_def)
    have "\<exists>b''. replace_equal findStr replaceStr replaceLen b' (foundAt + replaceLen) = Some b''
        \<and> length b'' = length b' \<and> b'' ! l = NUL"
    proof (rule "1.IH" [OF st refl mm adv "1.prems"(1,2,3,4) le])
      show "l < length b'" using lb "1.prems"(6) by simp
      show "b' ! l = NUL" using nb "1.prems"(7) by simp
    qed
    moreover have "replace_equal findStr replaceStr replaceLen b readFrom
        = replace_equal findStr replaceStr replaceLen b' (foundAt + replaceLen)"
      using st mm adv by (subst replace_equal.simps) simp
    ultimately show ?thesis using lb by simp
  qed
qed

lemma u32i_id: "0 \<le> x \<Longrightarrow> x < 4294967296 \<Longrightarrow> u32i x = nat x"
  by (simp add: u32i_def)

lemma strlen_upto:
  assumes "l < length b" "b ! l = NUL" "\<forall>i. i < l \<longrightarrow> b ! i \<noteq> NUL"
  shows "strlen b = Some l"
proof -
  have "NUL \<in> set b" using assms(1,2) by (metis nth_mem)
  moreover have "length (takeWhile (\<lambda>c. c \<noteq> NUL) b) \<le> l"
    using assms(1,2) by (intro takeWhile_length_le) simp_all
  moreover have "l \<le> length (takeWhile (\<lambda>c. c \<noteq> NUL) b)"
    using assms(1,3) by (intro length_takeWhile_less_P_nth) simp_all
  ultimately show ?thesis by (simp add: strlen_def)
qed

lemma replace_shrink_ok:
  "cstring findStr 0 = Some needle \<Longrightarrow> length needle = findLen \<Longrightarrow> replaceLen < findLen \<Longrightarrow>
   replaceLen \<le> length replaceStr \<Longrightarrow> diff = int replaceLen - int findLen \<Longrightarrow>
   L < 4294967296 \<Longrightarrow> L < length b \<Longrightarrow> b ! L = NUL \<Longrightarrow>
   (\<forall>i. readFrom \<le> i \<and> i < L \<longrightarrow> b ! i \<noteq> NUL) \<Longrightarrow> readFrom \<le> L \<Longrightarrow>
   writeTo \<le> readFrom \<Longrightarrow> l + (readFrom - writeTo) = L \<Longrightarrow>
   \<exists>b' l'. replace_shrink findStr findLen replaceStr replaceLen diff b l writeTo readFrom
             = Some (b', l')
          \<and> length b' = length b \<and> l' \<le> L \<and> b' ! l' = NUL"
proof (induction findStr findLen replaceStr replaceLen diff b l writeTo readFrom
    rule: replace_shrink.induct)
  case (1 findStr findLen replaceStr replaceLen diff b l writeTo readFrom)
  note p = "1.prems"
  from p(10,7,8) obtain hay where hay: "cstring b readFrom = Some hay"
    "readFrom + length hay \<le> L"
    by (rule cstring_upto)
  show ?case
  proof (cases "first_match needle hay")
    case None
    then have st: "strstr_P b readFrom findStr = Some None"
      using hay p(1) by (simp add: strstr_P_def)
    define n where "n = L - readFrom"
    have sl: "strlen (drop readFrom b) = Some n"
    proof (rule strlen_upto)
      show "n < length (drop readFrom b)" using p(7,10) by (simp add: n_def)
      show "drop readFrom b ! n = NUL" using p(7,8,10) by (simp add: n_def)
      show "\<forall>i. i < n \<longrightarrow> drop readFrom b ! i \<noteq> NUL"
        using p(7,9,10) by (simp add: n_def)
    qed
    define xs where "xs = take (Suc n) (drop readFrom b)"
    have lx: "length xs = Suc n" using p(7,10) by (simp add: xs_def n_def)
    have rd: "rdn b readFrom (n + 1) = Some xs"
      using p(7,10) by (simp add: rdn_def xs_def n_def)
    have "writeTo + length xs \<le> length b"
      using lx p(7,10,11) by (simp add: n_def)
    then obtain b' where w: "wrn b writeTo xs = Some b'"
      by (simp add: wrn_def)
    have mm: "memmove b writeTo readFrom (n + 1) = Some b'"
      using rd w by (simp add: memmove_def)
    have res: "replace_shrink findStr findLen replaceStr replaceLen diff b l writeTo readFrom
        = Some (b', l)"
      using st sl mm by (subst replace_shrink.simps) simp
    have ll: "l = writeTo + n" using p(10,11,12) by (simp add: n_def)
    have "b' ! l = xs ! (l - writeTo)"
      using w lx ll by (intro wrn_nth_in) simp_all
    also have "\<dots> = xs ! n" using ll by simp
    also have "\<dots> = b ! L" using p(7,10) by (simp add: xs_def n_def)
    finally have "b' ! l = NUL" using p(8) by simp
    moreover have "length b' = length b" using w by (rule wrn_length)
    moreover have "l \<le> L" using p(12) by simp
    ultimately show ?thesis using res by simp
  next
    case (Some i)
    define foundAt where "foundAt = readFrom + i"
    have st: "strstr_P b readFrom findStr = Some (Some foundAt)"
      using hay p(1) Some by (simp add: strstr_P_def foundAt_def)
    have le: "foundAt + findLen \<le> L"
      using first_match_le [OF Some] hay(2) p(2) by (simp add: foundAt_def)
    have fi: "foundAt - readFrom = i" by (simp add: foundAt_def)
    have "\<exists>x. memmove b writeTo readFrom i = Some x"
      using le p(7,11) by (intro memmove_total) (simp_all add: foundAt_def)
    then obtain b1 where m1: "memmove b writeTo readFrom i = Some b1" by blast
    then have m1': "memmove b writeTo readFrom (foundAt - readFrom) = Some b1"
      by (simp add: fi)
    have l1: "length b1 = length b" using m1 by (rule memmove_length)
    have "\<exists>x. memmove_P b1 (writeTo + i) replaceStr replaceLen = Some x"
      using le p(3,4,7,11) l1 by (intro memmove_P_total) (simp_all add: foundAt_def)
    then obtain b2 where m2: "memmove_P b1 (writeTo + i) replaceStr replaceLen = Some b2"
      by blast
    then have m2': "memmove_P b1 (writeTo + (foundAt - readFrom)) replaceStr replaceLen = Some b2"
      by (simp add: fi)
    have l2: "length b2 = length b" using m2 l1 by (simp add: memmove_P_length)
    have adv: "\<not> foundAt + findLen \<le> readFrom"
      using p(3) by (simp add: foundAt_def)
    have keep: "b2 ! j = b ! j" if "foundAt + findLen \<le> j" for j
    proof -
      have "b2 ! j = b1 ! j"
        using m2 that p(3,11) by (intro memmove_P_nth) (auto simp: foundAt_def)
      also have "\<dots> = b ! j"
        using m1 that p(11) by (intro memmove_nth) (auto simp: foundAt_def)
      finally show ?thesis .
    qed
    have lge: "findLen - replaceLen \<le> l"
      using le p(11,12) by (simp add: foundAt_def)
    have ld: "u32i (int l + diff) = l - (findLen - replaceLen)"
    proof -
      have "int l + diff = int (l - (findLen - replaceLen))"
        using lge p(3,5) by simp
      moreover have "int (l - (findLen - replaceLen)) < 4294967296"
        using p(6,12) by simp
      ultimately show ?thesis by (simp add: u32i_id)
    qed
    have "\<exists>b' l'. replace_shrink findStr findLen replaceStr replaceLen diff b2
             (u32i (int l + diff)) (writeTo + (foundAt - readFrom) + replaceLen)
             (foundAt + findLen) = Some (b', l')
          \<and> length b' = length b2 \<and> l' \<le> L \<and> b' ! l' = NUL"
    proof (rule "1.IH" [OF st refl m1' m2' adv p(1,2,3,4,5,6)])
      show "L < length b2" using l2 p(7) by simp
      show "b2 ! L = NUL" using keep [OF le] p(8) by simp
      show "\<forall>j. foundAt + findLen \<le> j \<and> j < L \<longrightarrow> b2 ! j \<noteq> NUL"
        using keep p(9) by (simp add: foundAt_def)
      show "foundAt + findLen \<le> L" by (rule le)
      show "writeTo + (foundAt - readFrom) + replaceLen \<le> foundAt + findLen"
        using p(3,11) by (simp add: foundAt_def)
      show "u32i (int l + diff) + (foundAt + findLen - (writeTo + (foundAt - readFrom) + replaceLen)) = L"
        unfolding ld using lge p(3,11,12) by (simp add: foundAt_def)
    qed
    moreover have "replace_shrink findStr findLen replaceStr replaceLen diff b l writeTo readFrom
        = replace_shrink findStr findLen replaceStr replaceLen diff b2
             (u32i (int l + diff)) (writeTo + (foundAt - readFrom) + replaceLen)
             (foundAt + findLen)"
      using st m1' m2' adv by (subst replace_shrink.simps) simp
    ultimately show ?thesis using l2 by simp
  qed
qed

subsection \<open>The growing replace\<close>

lemma replace_grow_valid:
  "valid E s \<Longrightarrow>
   replace_grow findStr findLen replaceStr replaceLen diff s index = Some s' \<Longrightarrow> valid E s'"
proof (induction findStr findLen replaceStr replaceLen diff s index rule: replace_grow.induct)
  case (1 findStr findLen replaceStr replaceLen diff s index)
  note v = "1.prems"(1)
  note r = "1.prems"(2) [unfolded replace_grow.simps [of findStr findLen replaceStr replaceLen diff s index]]
  from v obtain b where b: "buffer s = Some b" "length b = capacity E s + 1"
    by (rule valid_buffer)
  show ?case
  proof (cases "0 \<le> index")
    case False
    with r v show ?thesis by simp
  next
    case i: True
    with r obtain index' where li: "lastIndexOf_P findStr (nat index) findLen s = Some index'"
      by (cases "lastIndexOf_P findStr (nat index) findLen s") simp_all
    show ?thesis
    proof (cases "0 \<le> index'")
      case False
      with r i li v show ?thesis by simp
    next
      case i': True
      define readFrom where "readFrom = nat index' + findLen"
      define newLen where "newLen = int (len s) + diff"
      from r i li i' b(1) obtain b1 where
        m1: "memmove b (nat (int readFrom + diff)) readFrom (u32i (int (len s) - int readFrom))
              = Some b1"
        by (cases "memmove b (nat (int readFrom + diff)) readFrom
                     (u32i (int (len s) - int readFrom))")
           (simp_all add: readFrom_def Let_def)
      from r i li i' b(1) m1 obtain b2 where
        m2: "memmove_P b1 (nat index') replaceStr replaceLen = Some b2"
        by (cases "memmove_P b1 (nat index') replaceStr replaceLen")
           (simp_all add: readFrom_def Let_def)
      from r i li i' b(1) m1 m2 obtain b3 where
        w: "wr b2 (nat newLen) NUL = Some b3"
        by (cases "wr b2 (nat newLen) NUL")
           (simp_all add: readFrom_def newLen_def Let_def)
      from r i li i' b(1) m1 m2 w have
        rec: "replace_grow findStr findLen replaceStr replaceLen diff
                (setLen (nat newLen) (setBuf b3 s)) (index' - 1) = Some s'"
        by (simp add: readFrom_def newLen_def Let_def)
      have l2: "length b2 = capacity E s + 1"
        using m1 m2 b(2) by (simp add: memmove_length memmove_P_length)
      from w have n: "nat newLen < length b2" and b3: "b3 = b2[nat newLen := NUL]"
        by (auto simp: wr_def split: if_splits)
      have "length b3 = capacity E s + 1" "nat newLen \<le> capacity E s"
        "rd b3 (nat newLen) = Some NUL"
        using l2 n b3 by (simp_all add: rd_def)
      with v have v': "valid E (setLen (nat newLen) (setBuf b3 s))"
        by (rule valid_update(2))
      from i li i' b(1) readFrom_def newLen_def m1 m2 w v' rec show ?thesis
        by (rule "1.IH")
    qed
  qed
qed

lemma u32i_le: "0 \<le> x \<Longrightarrow> int (u32i x) \<le> x"
proof -
  assume "0 \<le> x"
  then have "x mod 4294967296 \<le> x"
    by (intro zmod_le_nonneg_dividend) simp
  moreover have "0 \<le> x mod 4294967296" by simp
  ultimately show ?thesis by (simp add: u32i_def)
qed

lemma replace_count_bound:
  "replace_count findStr findLen diff b readFrom sz = Some sz' \<Longrightarrow> 0 \<le> diff \<Longrightarrow>
   int sz' \<le> int sz + int (length b - readFrom) * diff"
proof (induction findStr findLen diff b readFrom sz rule: replace_count.induct)
  case (1 findStr findLen diff b readFrom sz)
  note d = "1.prems"(2)
  note r = "1.prems"(1) [unfolded replace_count.simps [of findStr findLen diff b readFrom sz]]
  show ?case
  proof (cases "strstr_P b readFrom findStr")
    case None
    with r show ?thesis by simp
  next
    case st: (Some x)
    show ?thesis
    proof (cases x)
      case None
      with st r have "sz' = sz" by simp
      with d show ?thesis by simp
    next
      case x: (Some foundAt)
      from st x r have adv: "\<not> foundAt + findLen \<le> readFrom"
        by (cases "foundAt + findLen \<le> readFrom") simp_all
      from st x r adv have rec:
        "replace_count findStr findLen diff b (foundAt + findLen) (u32i (int sz + diff)) = Some sz'"
        by simp
      from st x adv rec d have ih:
        "int sz' \<le> int (u32i (int sz + diff)) + int (length b - (foundAt + findLen)) * diff"
        by (rule "1.IH")
      have "int (u32i (int sz + diff)) \<le> int sz + diff"
        using d by (intro u32i_le) simp
      moreover from st x have "readFrom \<le> foundAt \<and> foundAt < length b"
        by (intro strstr_P_bounds) simp
      then have "length b - (foundAt + findLen) + 1 \<le> length b - readFrom"
        using adv by linarith
      then have "int (length b - (foundAt + findLen)) + 1 \<le> int (length b - readFrom)"
        by linarith
      then have "(int (length b - (foundAt + findLen)) + 1) * diff
                   \<le> int (length b - readFrom) * diff"
        using d by (rule mult_right_mono)
      then have "int (length b - (foundAt + findLen)) * diff + diff
                   \<le> int (length b - readFrom) * diff"
        by (simp add: distrib_right)
      ultimately show ?thesis using ih by linarith
    qed
  qed
qed

lemma strlen_cstring:
  "strlen f = Some n \<Longrightarrow> \<exists>needle. cstring f 0 = Some needle \<and> length needle = n"
  by (auto simp: strlen_def cstring_def split: if_splits)

lemma s32_id: "- 2147483648 \<le> x \<Longrightarrow> x < 2147483648 \<Longrightarrow> s32 x = x"
  by (simp add: s32_def)

lemma content_nth:
  assumes "is_cstring E s" "buffer s = Some b" "i < len s"
  shows "b ! i \<noteq> NUL"
proof -
  from assms(1) obtain b' t where "buffer s = Some b'" "b' = content s @ NUL # t"
    "NUL \<notin> set (content s)" "length (content s) = len s"
    by (rule cstring_buffer)
  with assms(2,3) have e: "b = content s @ NUL # t" and i: "i < length (content s)"
    and n: "NUL \<notin> set (content s)"
    by simp_all
  from i have "(content s @ NUL # t) ! i = content s ! i"
    by (simp add: nth_append)
  moreover from i have "content s ! i \<in> set (content s)" by simp
  ultimately show ?thesis using n unfolding e by metis
qed

lemma String_replace_total:
  assumes E: "env_ok E" and v: "valid E s" and f: "strlen findStr = Some findLen"
    and rl: "replaceLen \<le> length replaceStr" and bd: "findLen < 65536"
    and le: "replaceLen \<le> findLen"
    and nn: "replaceLen < findLen \<Longrightarrow> NUL \<notin> set (content s)"
  shows "\<exists>r s'. String_replace E (Some findStr) findLen replaceStr replaceLen s = Some (r, s')
           \<and> valid E s'"
proof (cases "len s = 0 \<or> findLen = 0")
  case True
  then have
    "String_replace E (Some findStr) findLen replaceStr replaceLen s = Some (False, s)"
    by (auto simp: String_replace_def)
  with v show ?thesis by auto
next
  case False
  from v obtain b where b: "buffer s = Some b" "length b = capacity E s + 1"
    "len s \<le> capacity E s" "rd b (len s) = Some NUL"
    by (rule valid_buffer)
  then have bl: "len s < length b" "b ! len s = NUL"
    by (auto simp: rd_def split: if_splits)
  from f obtain needle where nd: "cstring findStr 0 = Some needle" "length needle = findLen"
    using strlen_cstring by blast
  have l: "len s < 65536" using E v by (rule valid_len_bound)
  define diff where "diff = int replaceLen - int findLen"
  have sd: "s32 (int replaceLen - int findLen) = diff"
    unfolding diff_def using bd le by (intro s32_id) simp_all
  show ?thesis
  proof (cases "replaceLen = findLen")
    case True
    then have d0: "diff = 0" by (simp add: diff_def)
    have "\<exists>b'. replace_equal findStr replaceStr replaceLen b 0 = Some b'
            \<and> length b' = length b \<and> b' ! len s = NUL"
      using nd(1) _ _ rl _ bl
    proof (rule replace_equal_ok)
      show "length needle = replaceLen" using nd(2) True by simp
      show "0 < replaceLen" using False True by simp
      show "0 \<le> len s" by simp
    qed
    then obtain b' where b': "replace_equal findStr replaceStr replaceLen b 0 = Some b'"
      "length b' = length b" "b' ! len s = NUL"
      by blast
    have "valid E (setBuf b' (setLen (len s) s))"
      using v by (rule valid_update(1)) (use b' b bl in \<open>simp_all add: rd_def\<close>)
    moreover have "setLen (len s) s = s" by (cases s) simp_all
    moreover have "String_replace E (Some findStr) findLen replaceStr replaceLen s
        = Some (True, setBuf b' s)"
      using False sd d0 b(1) b'(1) by (simp add: String_replace_def)
    ultimately show ?thesis by auto
  next
    case ne: False
    with le have lt: "replaceLen < findLen" by simp
    then have dn: "diff < 0" "diff \<noteq> 0" by (simp_all add: diff_def)
    have s: "is_cstring E s" using v nn [OF lt] by (simp add: is_cstring_def)
    have "\<exists>b' l'. replace_shrink findStr findLen replaceStr replaceLen diff b (len s) 0 0
             = Some (b', l')
          \<and> length b' = length b \<and> l' \<le> len s \<and> b' ! l' = NUL"
      using nd lt rl diff_def _ bl
    proof (rule replace_shrink_ok)
      show "len s < 4294967296" using l by simp
      show "\<forall>i. 0 \<le> i \<and> i < len s \<longrightarrow> b ! i \<noteq> NUL"
        using content_nth [OF s b(1)] by simp
      show "0 \<le> len s" "(0::nat) \<le> 0" "len s + (0 - 0) = len s" by simp_all
    qed
    then obtain b' l' where b':
      "replace_shrink findStr findLen replaceStr replaceLen diff b (len s) 0 0 = Some (b', l')"
      "length b' = length b" "l' \<le> len s" "b' ! l' = NUL"
      by blast
    have "valid E (setLen l' (setBuf b' s))"
      using v by (rule valid_update(2)) (use b' b bl in \<open>simp_all add: rd_def\<close>)
    moreover have "String_replace E (Some findStr) findLen replaceStr replaceLen s
        = Some (True, setLen l' (setBuf b' s))"
      using False sd dn b(1) b'(1) by (simp add: String_replace_def)
    ultimately show ?thesis by auto
  qed
qed

lemma String_replace_valid:
  assumes E: "env_ok E" and s: "is_cstring E s" and f: "strlen findStr = Some findLen"
    and rl: "replaceLen \<le> length replaceStr" and bd: "findLen < 65536" "replaceLen < 65536"
    and r: "String_replace E (Some findStr) findLen replaceStr replaceLen s = Some (r, s')"
  shows "valid E s'"
proof (cases "replaceLen \<le> findLen")
  case True
  from s have v: "valid E s" and nn: "NUL \<notin> set (content s)"
    by (simp_all add: is_cstring_def)
  from E v f rl bd(1) True nn have
    "\<exists>r s'. String_replace E (Some findStr) findLen replaceStr replaceLen s = Some (r, s')
           \<and> valid E s'"
    by (rule String_replace_total)
  with r show ?thesis by auto
next
  case gt: False
  from s have v: "valid E s" by (simp add: is_cstring_def)
  show ?thesis
  proof (cases "len s = 0 \<or> findLen = 0")
    case True
    with r have "s' = s" by (auto simp: String_replace_def)
    with v show ?thesis by simp
  next
    case False
    from v obtain b where b: "buffer s = Some b" "length b = capacity E s + 1"
      "len s \<le> capacity E s" "rd b (len s) = Some NUL"
      by (rule valid_buffer)
    have l: "len s < 65536" using E v by (rule valid_len_bound)
    define diff where "diff = int replaceLen - int findLen"
    have sd: "s32 (int replaceLen - int findLen) = diff"
      unfolding diff_def using bd gt by (intro s32_id) simp_all
    have dp: "0 < diff" "diff \<noteq> 0" "\<not> diff < 0" using gt by (simp_all add: diff_def)
    have dl: "diff \<le> 65534" using bd False gt by (simp add: diff_def)
    from r False sd dp b(1) obtain sz where
      cnt: "replace_count findStr findLen diff b 0 (len s) = Some sz"
      by (cases "replace_count findStr findLen diff b 0 (len s)")
         (simp_all add: String_replace_def)
    show ?thesis
    proof (cases "sz = len s")
      case True
      with r False sd dp b(1) cnt have "s' = s" by (simp add: String_replace_def)
      with v show ?thesis by simp
    next
      case ne: False
      define pre where "pre = (if sz > capacity E s then changeBuffer E sz s else Some (True, s))"
      have "\<exists>ok s1. pre = Some (ok, s1) \<and> valid E s1"
      proof (cases "sz > capacity E s")
        case False
        with v show ?thesis by (auto simp: pre_def)
      next
        case True
        have "int sz \<le> int (len s) + int (length b - 0) * diff"
          using cnt dp(1) by (intro replace_count_bound) simp_all
        moreover have "capacity E s < 65536"
          using E v by (cases s; cases "buffer s") (auto simp: env_ok_def)
        then have "int (length b - 0) \<le> 65536" using b(2) by simp
        then have "int (length b - 0) * diff \<le> 65536 * 65534"
          using dl dp(1) by (intro mult_mono) simp_all
        ultimately have "sz < 4294967280" using l by simp
        with E v True have "\<exists>r s'. changeBuffer E sz s = Some (r, s') \<and> valid E s'"
          by (rule changeBuffer_valid)
        with True show ?thesis by (simp add: pre_def)
      qed
      then obtain ok s1 where p: "pre = Some (ok, s1)" and v1: "valid E s1" by blast
      show ?thesis
      proof (cases ok)
        case False
        with r \<open>\<not> (len s = 0 \<or> findLen = 0)\<close> sd dp b(1) cnt ne p have "s' = s1"
          by (simp add: String_replace_def pre_def [symmetric])
        with v1 show ?thesis by simp
      next
        case True
        with r \<open>\<not> (len s = 0 \<or> findLen = 0)\<close> sd dp b(1) cnt ne p have
          "replace_grow (Some findStr) findLen replaceStr replaceLen diff s1
             (s32 (int (len s1) - 1)) = Some s'"
          by (simp add: String_replace_def pre_def [symmetric] del: replace_grow.simps
              split: bind_splits)
        with v1 show ?thesis by (rule replace_grow_valid)
      qed
    qed
  qed
qed

subsection \<open>The whitespace trim\<close>

lemma trim_begin_loop_ok:
  "\<not> isspace NUL \<Longrightarrow> i \<le> l \<Longrightarrow> l < length b \<Longrightarrow> b ! l = NUL \<Longrightarrow>
   \<exists>k. trim_begin_loop isspace b i = Some k \<and> i \<le> k \<and> k \<le> l \<and> \<not> isspace (b ! k)"
proof (induction isspace b i rule: trim_begin_loop.induct)
  case (1 isspace b beginp)
  note p = "1.prems"
  have r: "rd b beginp = Some (b ! beginp)" using p(2,3) by (simp add: rd_def)
  show ?case
  proof (cases "isspace (b ! beginp)")
    case False
    with r have "trim_begin_loop isspace b beginp = Some beginp"
      by (subst trim_begin_loop.simps) simp
    with False p(2) show ?thesis by simp
  next
    case True
    with p(1,4) have "beginp \<noteq> l" by auto
    with p(2) have le: "beginp + 1 \<le> l" by simp
    from r True p(1) le p(3,4) have
      "\<exists>k. trim_begin_loop isspace b (beginp + 1) = Some k \<and> beginp + 1 \<le> k \<and> k \<le> l
           \<and> \<not> isspace (b ! k)"
      by (rule "1.IH")
    moreover have "trim_begin_loop isspace b beginp = trim_begin_loop isspace b (beginp + 1)"
      using r True by (subst trim_begin_loop.simps) simp
    ultimately show ?thesis by auto
  qed
qed

lemma trim_end_loop_ok:
  "0 \<le> e \<Longrightarrow> nat e < length b \<Longrightarrow> 0 < beginp \<or> (\<exists>k. k \<le> nat e \<and> \<not> isspace (b ! k)) \<Longrightarrow>
   int beginp - 1 \<le> e \<Longrightarrow>
   \<exists>e'. trim_end_loop isspace b beginp e = Some e' \<and> int beginp - 1 \<le> e' \<and> e' \<le> e \<and> - 1 \<le> e'"
proof (induction isspace b beginp e rule: trim_end_loop.induct)
  case (1 isspace b beginp endp)
  note p = "1.prems"
  have n: "\<not> endp < 0" using p(1) by simp
  have r: "rd b (nat endp) = Some (b ! nat endp)" using p(2) by (simp add: rd_def)
  show ?case
  proof (cases "isspace (b ! nat endp) \<and> int beginp \<le> endp")
    case False
    with r n have "trim_end_loop isspace b beginp endp = Some endp"
      by (subst trim_end_loop.simps) auto
    with p(1,4) show ?thesis by simp
  next
    case True
    have pos: "0 \<le> endp - 1"
    proof (cases "0 < beginp")
      case True
      with \<open>isspace (b ! nat endp) \<and> int beginp \<le> endp\<close> show ?thesis by simp
    next
      case False
      with p(3) obtain k where k: "k \<le> nat endp" "\<not> isspace (b ! k)" by blast
      with True have "k \<noteq> nat endp" by auto
      with k(1) have "k < nat endp" by simp
      then show ?thesis by simp
    qed
    have alt: "0 < beginp \<or> (\<exists>k. k \<le> nat (endp - 1) \<and> \<not> isspace (b ! k))"
    proof (cases "0 < beginp")
      case True
      then show ?thesis by simp
    next
      case False
      with p(3) obtain k where k: "k \<le> nat endp" "\<not> isspace (b ! k)" by blast
      with True have "k \<noteq> nat endp" by auto
      with k(1) have "k \<le> nat (endp - 1)" by simp
      with k(2) show ?thesis by blast
    qed
    have lt: "nat (endp - 1) < length b" using p(2) by simp
    have ge: "int beginp - 1 \<le> endp - 1" using True by simp
    from n r True pos lt alt ge have
      "\<exists>e'. trim_end_loop isspace b beginp (endp - 1) = Some e' \<and> int beginp - 1 \<le> e'
            \<and> e' \<le> endp - 1 \<and> - 1 \<le> e'"
      by (rule "1.IH")
    moreover have "trim_end_loop isspace b beginp endp = trim_end_loop isspace b beginp (endp - 1)"
      using r n True by (subst trim_end_loop.simps) simp
    ultimately show ?thesis by auto
  qed
qed

lemma trim_space_total:
  assumes E: "env_ok E" and v: "valid E s" and z: "\<not> isspace NUL"
    and c0: "len s = 0 \<or> has_LEFT type \<or> (\<exists>c \<in> set (content s). \<not> isspace c)"
  shows "\<exists>s'. String_trim_space isspace type s = Some s'"
proof (cases "len s = 0")
  case True
  then show ?thesis by (simp add: String_trim_space_def)
next
  case False
  with c0 have c: "has_LEFT type \<or> (\<exists>c \<in> set (content s). \<not> isspace c)" by simp
  from v obtain b where b: "buffer s = Some b" "length b = capacity E s + 1"
    "len s \<le> capacity E s" "rd b (len s) = Some NUL"
    by (rule valid_buffer)
  then have bl: "len s < length b" "b ! len s = NUL"
    by (auto simp: rd_def split: if_splits)
  define bg where "bg = (if has_LEFT type then trim_begin_loop isspace b 0 else Some 0)"
  have "\<exists>k. bg = Some k \<and> k \<le> len s \<and> (has_LEFT type \<longrightarrow> \<not> isspace (b ! k))"
  proof (cases "has_LEFT type")
    case True
    from z _ bl have "\<exists>k. trim_begin_loop isspace b 0 = Some k \<and> 0 \<le> k \<and> k \<le> len s
        \<and> \<not> isspace (b ! k)"
      by (rule trim_begin_loop_ok) simp
    with True show ?thesis by (auto simp: bg_def)
  next
    case False
    then show ?thesis by (simp add: bg_def)
  qed
  then obtain k where k: "bg = Some k" "k \<le> len s" "has_LEFT type \<longrightarrow> \<not> isspace (b ! k)"
    by blast
  define en where "en = (if has_RIGHT type then trim_end_loop isspace b k (int (len s) - 1)
                         else Some (int (len s) - 1))"
  have "\<exists>e. en = Some e \<and> int k - 1 \<le> e \<and> e \<le> int (len s) - 1 \<and> - 1 \<le> e"
  proof (cases "has_RIGHT type")
    case False
    with k(2) show ?thesis by (simp add: en_def)
  next
    case True
    have alt: "0 < k \<or> (\<exists>j. j \<le> nat (int (len s) - 1) \<and> \<not> isspace (b ! j))"
    proof (cases "has_LEFT type")
      case True
      with k(3) have "\<not> isspace (b ! k)" by simp
      then show ?thesis by (cases "0 < k") auto
    next
      case False
      with c obtain x where x: "x \<in> set (content s)" "\<not> isspace x" by blast
      have cs: "content s = take (len s) b" using b(1) by (simp add: content_def)
      from x(1) obtain j where j: "j < length (content s)" "content s ! j = x"
        by (auto simp: in_set_conv_nth)
      then have "j < len s" "b ! j = x" using cs bl by simp_all
      with x(2) have "j \<le> nat (int (len s) - 1) \<and> \<not> isspace (b ! j)" by simp
      then show ?thesis by blast
    qed
    have "\<exists>e'. trim_end_loop isspace b k (int (len s) - 1) = Some e' \<and> int k - 1 \<le> e'
           \<and> e' \<le> int (len s) - 1 \<and> - 1 \<le> e'"
      using _ _ alt
    proof (rule trim_end_loop_ok)
      show "0 \<le> int (len s) - 1" using False by simp
      show "nat (int (len s) - 1) < length b" using bl by simp
      show "int k - 1 \<le> int (len s) - 1" using k(2) by simp
    qed
    with True show ?thesis by (simp add: en_def)
  qed
  then obtain e where e: "en = Some e" "int k - 1 \<le> e" "e \<le> int (len s) - 1" "- 1 \<le> e"
    by blast
  define n where "n = nat (e + 1 - int k)"
  have l: "len s < 65536" using E v by (rule valid_len_bound)
  have un: "u32i (e + 1 - int k) = n"
    unfolding n_def using e l by (intro u32i_id) simp_all
  have nl: "k + n \<le> len s" using e by (simp add: n_def)
  define bm where "bm = (if k > 0 then memmove b 0 k n else Some b)"
  have "\<exists>x. bm = Some x \<and> length x = length b"
  proof (cases "k > 0")
    case False
    then show ?thesis by (simp add: bm_def)
  next
    case True
    have "\<exists>x. memmove b 0 k n = Some x"
      using nl bl by (intro memmove_total) simp_all
    then obtain x where "memmove b 0 k n = Some x" by blast
    with True show ?thesis by (auto simp: bm_def dest: memmove_length)
  qed
  then obtain b1 where b1: "bm = Some b1" "length b1 = length b" by blast
  have "n < length b1" using nl bl b1(2) by simp
  then obtain s' where pk: "poke (setLen n (setBuf b1 s)) n NUL = Some s'"
    using poke_total by blast
  have "String_trim_space isspace type s = Some s'"
    using False b(1) k(1) e(1) un b1(1) pk
    by (simp add: String_trim_space_def bg_def [symmetric] en_def [symmetric]
        bm_def [symmetric])
  then show ?thesis by blast
qed

subsection \<open>Every mutating operation\<close>

lemma valid_terminated: "valid E s \<Longrightarrow> len s \<le> capacity E s \<and> terminated s"
  by (erule valid_buffer) (simp add: terminated_def)

lemma copy_P_copy: "copy_P E pstr n s = copy E pstr n s"
  by (simp add: copy_P_def copy_def)

lemma copy_total_valid:
  assumes E: "env_ok E" and v: "valid E s" and n: "n < length cstr" "rd cstr n = Some NUL"
    "n < 4294900000"
  shows "\<exists>s'. copy E cstr n s = Some s' \<and> valid E s'"
proof -
  from n have "cstr ! n = NUL" "n < 4294967280" by (simp_all add: rd_def)
  with E v n(1) have
    "if alloc_fails E n s then copy E cstr n s = Some (invalidate E s)
     else (\<exists>s'. copy E cstr n s = Some s' \<and> valid E s' \<and> len s' = n
                \<and> content s' = take n cstr)"
    by (intro copy_valid)
  moreover have "valid E (invalidate E s)" using E v by (rule valid_invalidate)
  ultimately show ?thesis by (cases "alloc_fails E n s") auto
qed

lemma mutate_total_valid:
  assumes E: "env_ok E" and v: "valid E s" and a: "args_ok E m s"
  shows "\<exists>s'. mutate E m s = Some s' \<and> valid E s'"
proof -
  show ?thesis
  proof (cases m)
    case (Copy cstr n)
    with a copy_total_valid [OF E v, of n cstr] show ?thesis by simp
  next
    case (Copy_P pstr n)
    with a copy_total_valid [OF E v, of n pstr] show ?thesis by (simp add: copy_P_copy)
  next
    case (Concat cstr n)
    with a concat_valid [OF E v, of n cstr] v show ?thesis by auto
  next
    case (Concat_String x)
    show ?thesis
    proof (cases x)
      case Self
      with Concat_String concat_self_valid [OF E v] show ?thesis by auto
    next
      case (Other t)
      with Concat_String a have t: "valid E t" by simp
      then obtain bt where bt: "buffer t = Some bt" "length bt = capacity E t + 1"
        "len t \<le> capacity E t"
        by (rule valid_buffer)
      have "len t < 65536" using E t by (rule valid_len_bound)
      then have "len t \<le> length bt" "len t < 4294900000" using bt by simp_all
      with concat_valid [OF E v, of "len t" bt] Concat_String Other bt(1) v show ?thesis
        by (auto simp: concat_String_def)
    qed
  next
    case (Concat_P str)
    with a concat_P_valid [OF E v, of str] show ?thesis by auto
  next
    case (Insert position other n)
    with a insert_valid [OF E v, of n other position] show ?thesis by simp
  next
    case (Remove index count)
    with remove_valid [OF v, of index count] show ?thesis by auto
  next
    case (Replace_char f r)
    with replace_char_valid [OF v, of f r] show ?thesis by auto
  next
    case (Replace findStr findLen replaceStr replaceLen)
    with a String_replace_total [OF E v, of findStr findLen replaceLen replaceStr]
    show ?thesis by auto
  next
    case (Trim_space isspace type)
    with a trim_space_total [OF E v, of isspace type]
    obtain s' where "String_trim_space isspace type s = Some s'" by auto
    with Trim_space trim_space_valid [OF v this] show ?thesis by simp
  next
    case (LowerCase f)
    with toLowerCase_valid [OF v, of f] show ?thesis by simp
  next
    case (UpperCase f)
    with toUpperCase_valid [OF v, of f] show ?thesis by simp
  next
    case (ChangeBuffer n)
    with a changeBuffer_valid [OF E v, of n] show ?thesis by auto
  qed
qed

subsection \<open>Runs that leave the memory or the invariant\<close>

text \<open>
  The behaviours outside \<open>args_ok\<close>. The trailing scan of the whitespace trim, alone, on a
  value of three blanks reads the byte before the buffer. The growing replace of \<open>"aa"\<close> by \<open>"aaa"\<close> in nine \<open>a\<close>: the first
  pass counts four matches and asks for 13 bytes (a block of 16), the second pass goes
  back one byte at a time, finds overlapping matches and writes behind the block.
\<close>

lemma trailing_scan_underruns:
  "valid esp8266 (SSO (c_str ''   '' @ ''???????'') 3)
   \<and> mutate esp8266 (Trim_space (\<lambda>c. c = CHR '' '') RIGHT) (SSO (c_str ''   '' @ ''???????'') 3)
       = None"
  by (simp add: String_trim_space_def mem_defs op_defs)

lemma growing_replace_overruns:
  "is_cstring esp8266 (SSO (c_str ''aaaaaaaaa'' @ ''?'') 9)
   \<and> mutate esp8266 (Replace (c_str ''aa'') 2 (c_str ''aaa'') 3) (SSO (c_str ''aaaaaaaaa'' @ ''?'') 9)
       = None"
  by (simp add: is_cstring_def content_def replace_defs mem_defs op_defs upt_conv_Cons
      replicate_numeral)

text \<open>
  Trimming the characters \<open>x\<close> and \<open>y\<close> at both ends of the well-formed value
  \<open>"hixy"\<close>: the trailing scan sets the length to 2, the leading scan removes nothing,
  and \<open>remove(0, 0)\<close> returns before it writes the terminator. The length is within the
  capacity, but the byte at offset \<open>len\<close> is \<open>x\<close>: the buffer still reads \<open>"hixy"\<close> as a
  C string, and the object is not well-formed any more.
\<close>

lemma trim_without_terminator:
  "String_cstr esp8266 (Some (c_str ''hixy'')) = Some (SSO (c_str ''hixy'' @ ''??????'') 4)
   \<and> is_cstring esp8266 (SSO (c_str ''hixy'' @ ''??????'') 4)
   \<and> String_trim BOTH (Some (c_str ''xy'')) 2 (SSO (c_str ''hixy'' @ ''??????'') 4)
       = Some (SSO (c_str ''hixy'' @ ''??????'') 2)
   \<and> len (SSO (c_str ''hixy'' @ ''??????'') 2) \<le> capacity esp8266 (SSO (c_str ''hixy'' @ ''??????'') 2)
   \<and> rd (c_str ''hixy'' @ ''??????'') 2 = Some CHR ''x''
   \<and> strlen (c_str ''hixy'' @ ''??????'') = Some 4
   \<and> \<not> valid esp8266 (SSO (c_str ''hixy'' @ ''??????'') 2)"
  by (simp add: trim_defs is_cstring_def content_def mem_defs op_defs upt_conv_Cons)

section \<open>The claims\<close>

subsection \<open>C1: the general replace without a match\<close>

text \<open>
  C1. The value \<open>"banana"\<close> does not contain \<open>"x"\<close> nor \<open>"xx"\<close>. The equal-length branch
  (\<open>"x"\<close> by \<open>"y"\<close>) and the shrinking branch (\<open>"xx"\<close> by \<open>"y"\<close>) leave the value as it
  was and return true; only the growing branch (\<open>"x"\<close> by \<open>"yy"\<close>) returns false.
\<close>

theorem replace_without_match:
  "String_cstr esp8266 (Some (c_str ''banana'')) = Some (SSO (c_str ''banana'' @ ''????'') 6)
   \<and> String_replace esp8266 (Some (c_str ''x'')) 1 (c_str ''y'') 1
         (SSO (c_str ''banana'' @ ''????'') 6)
       = Some (True, SSO (c_str ''banana'' @ ''????'') 6)
   \<and> String_replace esp8266 (Some (c_str ''xx'')) 2 (c_str ''y'') 1
         (SSO (c_str ''banana'' @ ''????'') 6)
       = Some (True, SSO (c_str ''banana'' @ ''????'') 6)
   \<and> String_replace esp8266 (Some (c_str ''x'')) 1 (c_str ''yy'') 2
         (SSO (c_str ''banana'' @ ''????'') 6)
       = Some (False, SSO (c_str ''banana'' @ ''????'') 6)"
  by (simp add: replace_defs mem_defs op_defs upt_conv_Cons)

subsection \<open>C2: allocation failure in copy and concat\<close>

text \<open>
  C2. When the allocation step of a copy or an assignment fails, the destination is
  invalidated to the empty inline state; when the allocation step of an append fails, the
  call returns false and the object is the one it was (content, length and capacity).
\<close>

theorem allocation_failure:
  assumes "alloc_fails E n s"
  shows "copy E cstr n s = Some (invalidate E s)
       \<and> copy_P E cstr n s = Some (invalidate E s)
       \<and> (buffer rhs = Some cstr \<and> len rhs = n \<longrightarrow> assign_String E rhs s = Some (invalidate E s))
       \<and> (strlen cstr = Some n \<longrightarrow>
            assign_cstr E (Some cstr) s = Some (invalidate E s)
          \<and> assign_P E (Some cstr) s = Some (invalidate E s))
       \<and> isSSO (invalidate E s) \<and> len (invalidate E s) = 0 \<and> content (invalidate E s) = []
       \<and> (m \<noteq> 0 \<and> u32 (len s + m) = n \<longrightarrow> concat_cstr_len E (Some cstr) m s = Some (False, s))
       \<and> (buffer rhs = Some cstr \<and> len rhs \<noteq> 0 \<and> u32 (len s + len rhs) = n \<longrightarrow>
            concat_String E (Other rhs) s = Some (False, s))
       \<and> (buffer s \<noteq> None \<and> len s \<noteq> 0 \<and> u32 (2 * len s) = n \<longrightarrow>
            concat_String E Self s = Some (False, s))
       \<and> (strlen cstr = Some m \<and> m \<noteq> 0 \<and> u32 (len s + m) = n \<longrightarrow>
            concat_cstr E (Some cstr) s = Some (False, s)
          \<and> concat_P E (Some cstr) s = Some (False, s))"
proof -
  from assms have r: "reserve E n s = Some (False, s)"
    by (simp add: alloc_fails_iff)
  have c: "m' \<noteq> 0 \<Longrightarrow> u32 (len s + m') = n \<Longrightarrow>
             concat_cstr_len E (Some cstr) m' s = Some (False, s)" for m'
    by (auto simp: concat_cstr_len_def r)
  show ?thesis
  proof (intro conjI impI)
    show "copy E cstr n s = Some (invalidate E s)"
      by (simp add: copy_def r)
    show "copy_P E cstr n s = Some (invalidate E s)"
      by (simp add: copy_P_def r)
    show "assign_String E rhs s = Some (invalidate E s)" if "buffer rhs = Some cstr \<and> len rhs = n"
      using that by (simp add: assign_String_def copy_def r)
    show "assign_cstr E (Some cstr) s = Some (invalidate E s)" if "strlen cstr = Some n"
      using that by (simp add: assign_cstr_def copy_def r)
    show "assign_P E (Some cstr) s = Some (invalidate E s)" if "strlen cstr = Some n"
      using that by (simp add: assign_P_def copy_P_def r)
    show "isSSO (invalidate E s)" "len (invalidate E s) = 0" "content (invalidate E s) = []"
      by (simp_all add: invalidate_def)
    show "concat_cstr_len E (Some cstr) m s = Some (False, s)" if "m \<noteq> 0 \<and> u32 (len s + m) = n"
      using that c by simp
    show "concat_String E (Other rhs) s = Some (False, s)"
      if "buffer rhs = Some cstr \<and> len rhs \<noteq> 0 \<and> u32 (len s + len rhs) = n"
      using that c by (simp add: concat_String_def)
    show "concat_String E Self s = Some (False, s)"
      if "buffer s \<noteq> None \<and> len s \<noteq> 0 \<and> u32 (2 * len s) = n"
      using that by (auto simp: concat_String_def r)
    show "concat_cstr E (Some cstr) s = Some (False, s)"
      if "strlen cstr = Some m \<and> m \<noteq> 0 \<and> u32 (len s + m) = n"
      using that c by (simp add: concat_cstr_def)
    show "concat_P E (Some cstr) s = Some (False, s)"
      if "strlen cstr = Some m \<and> m \<noteq> 0 \<and> u32 (len s + m) = n"
      using that by (auto simp: concat_P_def r)
  qed
qed

theorem allocation_failure_witness:
  "alloc_fails out_of_memory 12 (SSO (c_str ''banana'' @ ''????'') 6)
   \<and> strlen (c_str ''abcdefghijkl'') = Some 12 \<and> strlen (c_str ''abcdef'') = Some 6
   \<and> copy out_of_memory (c_str ''abcdefghijkl'') 12 (SSO (c_str ''banana'' @ ''????'') 6)
       = Some (SSO (NUL # ''anana'' @ [NUL] @ ''????'') 0)
   \<and> copy_P out_of_memory (c_str ''abcdefghijkl'') 12 (SSO (c_str ''banana'' @ ''????'') 6)
       = Some (SSO (NUL # ''anana'' @ [NUL] @ ''????'') 0)
   \<and> assign_String out_of_memory (PTR (Some (c_str ''abcdefghijkl'')) 12 12)
         (SSO (c_str ''banana'' @ ''????'') 6)
       = Some (SSO (NUL # ''anana'' @ [NUL] @ ''????'') 0)
   \<and> assign_cstr out_of_memory (Some (c_str ''abcdefghijkl'')) (SSO (c_str ''banana'' @ ''????'') 6)
       = Some (SSO (NUL # ''anana'' @ [NUL] @ ''????'') 0)
   \<and> assign_P out_of_memory (Some (c_str ''abcdefghijkl'')) (SSO (c_str ''banana'' @ ''????'') 6)
       = Some (SSO (NUL # ''anana'' @ [NUL] @ ''????'') 0)
   \<and> concat_cstr_len out_of_memory (Some (c_str ''abcdef'')) 6 (SSO (c_str ''banana'' @ ''????'') 6)
       = Some (False, SSO (c_str ''banana'' @ ''????'') 6)
   \<and> concat_String out_of_memory (Other (PTR (Some (c_str ''abcdef'')) 6 6))
         (SSO (c_str ''banana'' @ ''????'') 6)
       = Some (False, SSO (c_str ''banana'' @ ''????'') 6)
   \<and> concat_String out_of_memory Self (SSO (c_str ''banana'' @ ''????'') 6)
       = Some (False, SSO (c_str ''banana'' @ ''????'') 6)
   \<and> concat_cstr out_of_memory (Some (c_str ''abcdef'')) (SSO (c_str ''banana'' @ ''????'') 6)
       = Some (False, SSO (c_str ''banana'' @ ''????'') 6)
   \<and> concat_P out_of_memory (Some (c_str ''abcdef'')) (SSO (c_str ''banana'' @ ''????'') 6)
       = Some (False, SSO (c_str ''banana'' @ ''????'') 6)"
proof -
  have h: "alloc_fails out_of_memory 12 (SSO (c_str ''banana'' @ ''????'') 6)"
    by (simp add: alloc_fails_def mem_defs op_defs)
  show ?thesis
    using h
      allocation_failure [OF h, where cstr = "c_str ''abcdefghijkl''"
        and rhs = "PTR (Some (c_str ''abcdefghijkl'')) 12 12" and m = 6]
      allocation_failure [OF h, where cstr = "c_str ''abcdef''"
        and rhs = "PTR (Some (c_str ''abcdef'')) 6 6" and m = 6]
    by (simp add: mem_defs op_defs)
qed

subsection \<open>C3: the representation invariant\<close>

text \<open>
  C3, as amended. Take a well-formed value and one of the operations copy, concat,
  insert, remove, replace of a character, the general replace with a replacement that is
  not longer than the string searched for, whitespace trim, case conversion and
  \<open>changeBuffer\<close>, on an input of \<open>args_ok\<close>; for a general replace with a shorter
  replacement the content of the value holds no NUL byte. The operation returns, and the
  object is well-formed after it: its length is at most its capacity and the byte at
  offset \<open>len\<close> of the active buffer is the terminator. Nothing is said of the
  character-set trim, of the general replace with a longer replacement and of the
  trailing-only whitespace trim of a non-empty value of whitespace only.
\<close>

theorem invariant_kept:
  assumes "env_ok E" and "valid E s" and "args_ok E m s"
  shows "\<exists>s'. mutate E m s = Some s'
              \<and> valid E s' \<and> len s' \<le> capacity E s' \<and> terminated s'"
proof -
  from assms have "\<exists>s'. mutate E m s = Some s' \<and> valid E s'"
    by (rule mutate_total_valid)
  then obtain s' where s': "mutate E m s = Some s'" "valid E s'" by blast
  from s'(2) have "len s' \<le> capacity E s'" "terminated s'"
    by (simp_all add: valid_terminated)
  with s' show ?thesis by blast
qed

theorem invariant_kept_witness:
  "env_ok esp8266 \<and> valid esp8266 (SSO (c_str ''banana'' @ ''????'') 6)
   \<and> args_ok esp8266 (Replace (c_str ''an'') 2 (c_str ''x'') 1) (SSO (c_str ''banana'' @ ''????'') 6)
   \<and> mutate esp8266 (Replace (c_str ''an'') 2 (c_str ''x'') 1) (SSO (c_str ''banana'' @ ''????'') 6)
        = Some (SSO (c_str ''bxxa'' @ c_str ''a'' @ ''????'') 4)
   \<and> valid esp8266 (SSO (c_str ''bxxa'' @ c_str ''a'' @ ''????'') 4)
   \<and> terminated (SSO (c_str ''bxxa'' @ c_str ''a'' @ ''????'') 4)
   \<and> valid esp8266 (SSO (c_str ''abcdef'' @ ''????'') 6)
   \<and> args_ok esp8266 (Insert 2 ''XYZ'' 3) (SSO (c_str ''abcdef'' @ ''????'') 6)
   \<and> mutate esp8266 (Insert 2 ''XYZ'' 3) (SSO (c_str ''abcdef'' @ ''????'') 6)
        = Some (SSO (c_str ''abXYZcdef'' @ ''?'') 9)
   \<and> valid esp8266 (SSO (c_str ''abXYZcdef'' @ ''?'') 9)
   \<and> valid esp8266 (SSO (c_str '' ab  '' @ ''?????'') 5)
   \<and> args_ok esp8266 (Trim_space (\<lambda>c. c = CHR '' '') BOTH) (SSO (c_str '' ab  '' @ ''?????'') 5)
   \<and> mutate esp8266 (Trim_space (\<lambda>c. c = CHR '' '') BOTH) (SSO (c_str '' ab  '' @ ''?????'') 5)
        = Some (SSO (c_str ''ab'' @ c_str ''  '' @ ''?????'') 2)
   \<and> valid esp8266 (SSO (c_str ''ab'' @ c_str ''  '' @ ''?????'') 2)"
proof -
  have h: "env_ok esp8266" "valid esp8266 (SSO (c_str ''banana'' @ ''????'') 6)"
    "args_ok esp8266 (Replace (c_str ''an'') 2 (c_str ''x'') 1) (SSO (c_str ''banana'' @ ''????'') 6)"
    "valid esp8266 (SSO (c_str ''abcdef'' @ ''????'') 6)"
    "args_ok esp8266 (Insert 2 ''XYZ'' 3) (SSO (c_str ''abcdef'' @ ''????'') 6)"
    "valid esp8266 (SSO (c_str '' ab  '' @ ''?????'') 5)"
    "args_ok esp8266 (Trim_space (\<lambda>c. c = CHR '' '') BOTH) (SSO (c_str '' ab  '' @ ''?????'') 5)"
    by (simp_all add: env_ok_def content_def mem_defs op_defs)
  have r: "mutate esp8266 (Replace (c_str ''an'') 2 (c_str ''x'') 1)
             (SSO (c_str ''banana'' @ ''????'') 6)
           = Some (SSO (c_str ''bxxa'' @ c_str ''a'' @ ''????'') 4)"
    by (simp add: replace_defs mem_defs op_defs upt_conv_Cons)
  have i: "mutate esp8266 (Insert 2 ''XYZ'' 3) (SSO (c_str ''abcdef'' @ ''????'') 6)
           = Some (SSO (c_str ''abXYZcdef'' @ ''?'') 9)"
    by (simp add: insert_cstr_len_def mem_defs op_defs upt_conv_Cons)
  have w: "mutate esp8266 (Trim_space (\<lambda>c. c = CHR '' '') BOTH)
             (SSO (c_str '' ab  '' @ ''?????'') 5)
           = Some (SSO (c_str ''ab'' @ c_str ''  '' @ ''?????'') 2)"
    by (simp add: String_trim_space_def u32i_def mem_defs op_defs upt_conv_Cons)
  show ?thesis
    using h r i w invariant_kept [OF h(1) h(2) h(3)] invariant_kept [OF h(1) h(4) h(5)]
      invariant_kept [OF h(1) h(6) h(7)]
    by (simp add: terminated_def mem_defs op_defs)
qed

text \<open>
  The value \<open>"aabXcd"\<close>, after its \<open>X\<close> is replaced by a NUL byte, is well-formed, with
  a NUL byte inside its content. The shrinking replace of \<open>"aa"\<close> by \<open>"x"\<close> returns true,
  sets the length to 5 and moves the tail it measures with \<open>strlen\<close>, which ends at the
  NUL byte inside: the byte at offset 5 is \<open>d\<close>.
\<close>

theorem invariant_counterexample:
  "replace_char CHR ''X'' NUL (SSO (c_str ''aabXcd'' @ ''????'') 6)
     = Some (True, SSO (''aab'' @ NUL # c_str ''cd'' @ ''????'') 6)
   \<and> valid esp8266 (SSO (''aab'' @ NUL # c_str ''cd'' @ ''????'') 6)
   \<and> String_replace esp8266 (Some (c_str ''aa'')) 2 (c_str ''x'') 1
        (SSO (''aab'' @ NUL # c_str ''cd'' @ ''????'') 6)
       = Some (True, SSO (''xb'' @ [NUL, NUL] @ c_str ''cd'' @ ''????'') 5)
   \<and> rd (''xb'' @ [NUL, NUL] @ c_str ''cd'' @ ''????'') 5 = Some CHR ''d''
   \<and> \<not> terminated (SSO (''xb'' @ [NUL, NUL] @ c_str ''cd'' @ ''????'') 5)
   \<and> \<not> valid esp8266 (SSO (''xb'' @ [NUL, NUL] @ c_str ''cd'' @ ''????'') 5)"
  by (simp add: replace_char_def terminated_def replace_defs mem_defs op_defs upt_conv_Cons)

subsection \<open>C4: zero-length addends\<close>

text \<open>
  C4. Appending a zero-length addend returns true and gives back the object as it was
  (content, length and capacity; no growth), whatever its state: for a byte run of length
  zero, for another String of length zero, for the empty object appended to itself, and
  for an empty C string in ordinary or flash memory. An invalidated or moved-from object
  is such an addend: it has a buffer and the length zero.
\<close>

theorem concat_zero_length:
  "concat_cstr_len E (Some cstr) 0 s = Some (True, s)
   \<and> (buffer t \<noteq> None \<and> len t = 0 \<longrightarrow> concat_String E (Other t) s = Some (True, s))
   \<and> (buffer s \<noteq> None \<and> len s = 0 \<longrightarrow> concat_String E Self s = Some (True, s))
   \<and> (strlen cstr = Some 0 \<longrightarrow>
        concat_cstr E (Some cstr) s = Some (True, s) \<and> concat_P E (Some cstr) s = Some (True, s))
   \<and> buffer (invalidate E u) \<noteq> None \<and> len (invalidate E u) = 0
   \<and> buffer (String_empty E) \<noteq> None \<and> len (String_empty E) = 0"
  by (auto simp: concat_cstr_len_def concat_String_def concat_cstr_def concat_P_def
      invalidate_def String_empty_def)

theorem concat_zero_length_witness:
  "buffer (invalidate esp8266 (PTR (Some (c_str ''abcdefghijklmno'')) 15 15)) \<noteq> None
   \<and> len (invalidate esp8266 (PTR (Some (c_str ''abcdefghijklmno'')) 15 15)) = 0
   \<and> strlen (c_str '''') = Some 0
   \<and> concat_String esp8266 (Other (invalidate esp8266 (PTR (Some (c_str ''abcdefghijklmno'')) 15 15)))
        (SSO (c_str ''banana'' @ ''????'') 6) = Some (True, SSO (c_str ''banana'' @ ''????'') 6)
   \<and> concat_String esp8266 Self (invalidate esp8266 (PTR (Some (c_str ''abcdefghijklmno'')) 15 15))
        = Some (True, invalidate esp8266 (PTR (Some (c_str ''abcdefghijklmno'')) 15 15))
   \<and> concat_cstr esp8266 (Some (c_str '''')) (SSO (c_str ''banana'' @ ''????'') 6)
        = Some (True, SSO (c_str ''banana'' @ ''????'') 6)
   \<and> concat_P esp8266 (Some (c_str '''')) (SSO (c_str ''banana'' @ ''????'') 6)
        = Some (True, SSO (c_str ''banana'' @ ''????'') 6)"
  using concat_zero_length [where E = esp8266 and cstr = "c_str ''''"
      and s = "SSO (c_str ''banana'' @ ''????'') 6"
      and t = "invalidate esp8266 (PTR (Some (c_str ''abcdefghijklmno'')) 15 15)"
      and u = "PTR (Some (c_str ''abcdefghijklmno'')) 15 15"]
    concat_zero_length [where E = esp8266 and cstr = "c_str ''''"
      and s = "invalidate esp8266 (PTR (Some (c_str ''abcdefghijklmno'')) 15 15)"
      and t = "invalidate esp8266 (PTR (Some (c_str ''abcdefghijklmno'')) 15 15)"
      and u = "PTR (Some (c_str ''abcdefghijklmno'')) 15 15"]
  by (simp add: strlen_def c_str_def invalidate_def)

subsection \<open>C5: self-concatenation\<close>

text \<open>
  C5, as amended. For a well-formed value with content \<open>s\<close>, the self-concatenation
  returns false and leaves the object as it was when its allocation step fails; in every
  other case (always when twice the length fits the capacity) it returns true and the
  object holds \<open>s\<close> followed by \<open>s\<close>, with the length doubled, also when the storage was
  moved from the inline array to a heap block or from one heap block to a larger one.
\<close>

theorem self_concat:
  assumes E: "env_ok E" and v: "valid E s"
  shows "if alloc_fails E (2 * len s) s then concat_String E Self s = Some (False, s)
         else (\<exists>s'. concat_String E Self s = Some (True, s') \<and> valid E s'
                    \<and> content s' = content s @ content s \<and> len s' = 2 * len s)"
  using E v by (rule concat_self)

theorem self_concat_witness:
  "env_ok esp8266 \<and> valid esp8266 (SSO (c_str ''ab'' @ ''????????'') 2)
   \<and> valid esp8266 (SSO (c_str ''abcdef'' @ ''????'') 6)
   \<and> concat_String esp8266 Self (SSO (c_str ''ab'' @ ''????????'') 2)
        = Some (True, SSO (c_str ''abab'' @ ''??????'') 4)
   \<and> concat_String esp8266 Self (SSO (c_str ''abcdef'' @ ''????'') 6)
        = Some (True, PTR (Some (c_str ''abcdefabcdef'' @ [NUL, NUL, NUL])) 15 12)"
proof -
  have h: "env_ok esp8266" "valid esp8266 (SSO (c_str ''ab'' @ ''????????'') 2)"
    "valid esp8266 (SSO (c_str ''abcdef'' @ ''????'') 6)"
    by (simp_all add: env_ok_def mem_defs op_defs)
  show ?thesis
    using h self_concat [OF h(1) h(2)] self_concat [OF h(1) h(3)]
    by (simp add: concat_String_def alloc_fails_def mem_defs op_defs upt_conv_Cons
        replicate_numeral)
qed

theorem self_concat_counterexample:
  "valid out_of_memory (SSO (c_str ''abcdef'' @ ''????'') 6)
   \<and> content (SSO (c_str ''abcdef'' @ ''????'') 6) = ''abcdef''
   \<and> concat_String out_of_memory Self (SSO (c_str ''abcdef'' @ ''????'') 6)
        = Some (False, SSO (c_str ''abcdef'' @ ''????'') 6)"
  by (simp add: concat_String_def content_def mem_defs op_defs)

subsection \<open>C6: the growing replace\<close>

text \<open>
  C6. On every well-formed value holding \<open>"banana"\<close>, the general replace of \<open>"a"\<close> by
  \<open>"aa"\<close> counts three matches in its first pass (final size 9) and grows the storage once
  when the capacity is below 9. When that growth fails, the call returns false and the
  object is the one it was. In every other case the call returns true and the value holds
  \<open>"baanaanaa"\<close>, the matches having been rewritten from the right to the left.
\<close>

theorem replace_banana:
  assumes E: "env_ok E" and v: "valid E s" and c: "content s = ''banana''"
  shows "replace_count (c_str ''a'') 1 1 (the (buffer s)) 0 (len s) = Some 9
       \<and> (if capacity E s < 9 \<and> changeBuffer E 9 s = Some (False, s)
           then String_replace E (Some (c_str ''a'')) 1 (c_str ''aa'') 2 s = Some (False, s)
           else (\<exists>s'. String_replace E (Some (c_str ''a'')) 1 (c_str ''aa'') 2 s = Some (True, s')
                      \<and> valid E s' \<and> content s' = ''baanaanaa'' \<and> len s' = 9))"
proof -
  from v obtain b where b: "buffer s = Some b" "length b = capacity E s + 1"
    "len s \<le> capacity E s" "rd b (len s) = Some NUL"
    by (rule valid_buffer)
  define t where "t = drop 7 b"
  from banana_buffer [OF b(1) c b(3) b(2) b(4)] have l: "len s = 6" and bb: "b = ''banana'' @ NUL # t"
    by (simp_all add: t_def)
  have lt: "length t = capacity E s - 6"
    using b(2) by (simp add: t_def)
  have cnt: "replace_count (c_str ''a'') 1 1 b 0 6 = Some 9"
    by (subst bb) (rule replace_count_banana)
  have d: "s32 (int 2 - int 1) = 1" by (simp add: s32_def)
  have i: "s32 (int 6 - 1) = 5" by (simp add: s32_def)
  have unfold: "String_replace E (Some (c_str ''a'')) 1 (c_str ''aa'') 2 s =
      (if 9 > capacity E s then changeBuffer E 9 s else Some (True, s)) \<bind>
      (\<lambda>(ok, s1). if \<not> ok then Some (False, s1)
         else replace_grow (Some (c_str ''a'')) 1 (c_str ''aa'') 2 1 s1 (s32 (int (len s1) - 1))
                \<bind> (\<lambda>s2. Some (True, s2)))"
    using b(1) l cnt d
    by (simp add: String_replace_def del: replace_count.simps replace_grow.simps One_nat_def)
  have main: "if capacity E s < 9 \<and> changeBuffer E 9 s = Some (False, s)
           then String_replace E (Some (c_str ''a'')) 1 (c_str ''aa'') 2 s = Some (False, s)
           else (\<exists>s'. String_replace E (Some (c_str ''a'')) 1 (c_str ''aa'') 2 s = Some (True, s')
                      \<and> valid E s' \<and> content s' = ''baanaanaa'' \<and> len s' = 9)"
  proof (cases "capacity E s < 9")
    case False
    with lt have "3 \<le> length t" by simp
    then obtain x y z t' where t: "t = x # y # z # t'" by (rule list3)
    show ?thesis
    proof (cases s)
      case (SSO b' l')
      with b l bb t have s: "s = SSO (''banana'' @ NUL # x # y # z # t') 6" by simp
      have "String_replace E (Some (c_str ''a'')) 1 (c_str ''aa'') 2 s
              = Some (True, SSO (''baanaanaa'' @ NUL # t') 9)"
        unfolding unfold using False i
        by (simp add: s replace_grow_banana_SSO [unfolded append.simps] del: replace_grow.simps One_nat_def)
      moreover have "valid E (SSO (''baanaanaa'' @ NUL # t') 9)"
        using v False unfolding s by (simp add: rd_def)
      ultimately show ?thesis using False by (simp add: content_def)
    next
      case (PTR p c' l')
      with b l bb t have s: "s = PTR (Some (''banana'' @ NUL # x # y # z # t')) c' 6" by simp
      have "String_replace E (Some (c_str ''a'')) 1 (c_str ''aa'') 2 s
              = Some (True, PTR (Some (''baanaanaa'' @ NUL # t')) c' 9)"
        unfolding unfold using False i
        by (simp add: s replace_grow_banana_PTR [unfolded append.simps] del: replace_grow.simps One_nat_def)
      moreover have "valid E (PTR (Some (''baanaanaa'' @ NUL # t')) c' 9)"
        using v False unfolding s by (simp add: rd_def)
      ultimately show ?thesis using False by (simp add: content_def)
    qed
  next
    case True
    have "(9::nat) < 4294967280" by simp
    from changeBuffer_grow [OF E v b(1) True this] show ?thesis
    proof
      assume f: "changeBuffer E 9 s = Some (False, s)"
      then have "String_replace E (Some (c_str ''a'')) 1 (c_str ''aa'') 2 s = Some (False, s)"
        unfolding unfold using True by simp
      with f True show ?thesis by simp
    next
      assume "\<exists>c. changeBuffer E 9 s
                 = Some (True, PTR (Some (b @ replicate (c - capacity E s) NUL)) c (len s))
              \<and> 9 \<le> c \<and> c < CAPACITY_MAX E"
      then obtain c' where g: "changeBuffer E 9 s
                 = Some (True, PTR (Some (b @ replicate (c' - capacity E s) NUL)) c' (len s))"
        and c': "9 \<le> c'" "c' < CAPACITY_MAX E"
        by blast
      define t2 where "t2 = t @ replicate (c' - capacity E s) NUL"
      have "length t2 = c' - 6"
        using lt True c' b(3) l by (simp add: t2_def)
      with c' have "3 \<le> length t2" by simp
      then obtain x y z t' where t: "t2 = x # y # z # t'" by (rule list3)
      have lt': "length t' = c' - 9"
        using \<open>length t2 = c' - 6\<close> t by simp
      have bz: "b @ replicate (c' - capacity E s) NUL = ''banana'' @ NUL # x # y # z # t'"
        using t by (subst bb) (simp add: t2_def)
      have "String_replace E (Some (c_str ''a'')) 1 (c_str ''aa'') 2 s
              = Some (True, PTR (Some (''baanaanaa'' @ NUL # t')) c' 9)"
        unfolding unfold using True g i l
        by (simp add: bz replace_grow_banana_PTR [unfolded append.simps] del: replace_grow.simps One_nat_def)
      moreover have "SSOSIZE E - 1 \<le> c'"
        using valid_capacity [OF v] True c' by linarith
      then have "valid E (PTR (Some (''baanaanaa'' @ NUL # t')) c' 9)"
        using c' lt' by (simp add: rd_def)
      moreover have "changeBuffer E 9 s \<noteq> Some (False, s)"
        using g by simp
      ultimately show ?thesis by (simp add: content_def)
    qed
  qed
  from cnt b(1) l main show ?thesis by simp
qed

theorem replace_banana_witness:
  "env_ok esp8266 \<and> valid esp8266 (SSO (c_str ''banana'' @ ''????'') 6)
   \<and> content (SSO (c_str ''banana'' @ ''????'') 6) = ''banana''
   \<and> String_cstr esp8266 (Some (c_str ''banana'')) = Some (SSO (c_str ''banana'' @ ''????'') 6)
   \<and> String_replace esp8266 (Some (c_str ''a'')) 1 (c_str ''aa'') 2
        (SSO (c_str ''banana'' @ ''????'') 6)
       = Some (True, SSO (c_str ''baanaanaa'' @ ''?'') 9)"
proof -
  have h: "env_ok esp8266" "valid esp8266 (SSO (c_str ''banana'' @ ''????'') 6)"
    "content (SSO (c_str ''banana'' @ ''????'') 6) = ''banana''"
    by (simp_all add: env_ok_def content_def mem_defs op_defs)
  show ?thesis
    using h replace_banana [OF h]
    by (simp add: replace_defs mem_defs op_defs upt_conv_Cons)
qed

subsection \<open>C7: substring\<close>

text \<open>
  C7, as amended. For a well-formed value whose content holds no NUL byte, \<open>substring\<close>
  gives the object back as it was and returns a new value. With \<open>l\<close> the smaller of the
  two indices and \<open>r\<close> the larger one clamped to the length, the new value holds exactly
  the bytes \<open>[l, r)\<close> of the content, unless the allocation step of the copy fails: then
  the new value is the invalidated, empty one.
\<close>

theorem substring_range:
  assumes E: "env_ok E" and v: "is_cstring E s"
  shows "\<exists>out. substring E left right s = Some (out, s) \<and>
           (let l = min left right; r = min (max left right) (len s) in
            if l < len s \<and> alloc_fails E (r - l) (String_empty E)
            then out = invalidate E (String_empty E)
            else valid E out \<and> content out = take (r - l) (drop l (content s)))"
proof -
  from v have vs: "valid E s" and nn: "NUL \<notin> set (content s)"
    by (simp_all add: is_cstring_def)
  from vs obtain b where b: "buffer s = Some b" "length b = capacity E s + 1"
    "len s \<le> capacity E s" "rd b (len s) = Some NUL"
    by (rule valid_buffer)
  define l where "l = min left right"
  define r where "r = min (max left right) (len s)"
  have c: "content s = take (len s) b"
    using b by (simp add: content_def)
  have ve: "valid E (String_empty E)"
    using E by (rule valid_String_empty)
  show ?thesis
  proof (cases "l < len s")
    case False
    then have "substring E left right s = Some (String_empty E, s)"
      by (auto simp: substring_def l_def min_def)
    moreover have "content (String_empty E) = []"
      by (simp add: String_empty_def content_def)
    moreover have "take (r - l) (drop l (content s)) = []"
      using False c by simp
    ultimately show ?thesis
      using False ve unfolding l_def r_def Let_def by simp
  next
    case True
    have lr: "l \<le> r" "r \<le> len s" "r < length b"
      using True b by (auto simp: l_def r_def)
    define n where "n = r - l"
    define b1 where "b1 = b[r := NUL]"
    have pk1: "poke s r NUL = Some (setBuf b1 s)"
      using b lr by (simp add: poke_def wr_def b1_def)
    have bb1: "buffer (setBuf b1 s) = Some b1"
      by (cases s) simp_all
    have pk2: "poke (setBuf b1 s) r (b ! r) = Some s"
      using bb1 lr b vs by (cases s) (auto simp: poke_def wr_def b1_def)
    have nonul: "NUL \<notin> set (take n (drop l b))"
    proof -
      have "take n (drop l b) = take n (drop l (take (len s) b))"
        using lr by (simp add: n_def drop_take)
      then have "set (take n (drop l b)) \<subseteq> set (take (len s) b)"
        by (metis set_drop_subset set_take_subset subset_trans)
      with nn c show ?thesis by auto
    qed
    have split: "drop l b1 = take n (drop l b) @ NUL # drop (r + 1) b"
    proof -
      have "b1 = take r b @ NUL # drop (r + 1) b"
        using lr by (simp add: b1_def upd_conv_take_nth_drop)
      then have "drop l b1 = drop l (take r b) @ NUL # drop (r + 1) b"
        using lr by simp
      also have "drop l (take r b) = take n (drop l b)"
        by (simp add: n_def drop_take)
      finally show ?thesis .
    qed
    have ln: "length (take n (drop l b)) = n"
      using lr by (simp add: n_def)
    have sl: "strlen (drop l b1) = Some n"
      unfolding split using strlen_prefix [OF nonul] ln by simp
    have cn: "n < length (drop l b1)" "drop l b1 ! n = NUL"
      unfolding split using ln by (simp_all add: nth_append)
    have tk: "take n (drop l b1) = take n (drop l b)"
      unfolding split using ln by simp
    have "len s < 65536" using E vs by (rule valid_len_bound)
    then have nb: "n < 4294967280"
      using lr by (simp add: n_def)
    have sub: "substring E left right s =
        copy E (drop l b1) n (String_empty E) \<bind> (\<lambda>out'. Some (out', s))"
    proof -
      have a: "(if right < left then right else left) = l"
        "(if len s < (if right < left then left else right) then len s
          else (if right < left then left else right)) = r"
        by (auto simp: l_def r_def min_def max_def)
      have "rd b r = Some (b ! r)" using lr by (simp add: rd_def)
      moreover have "l \<le> length b1" using lr by (simp add: b1_def)
      ultimately show ?thesis
        using True b(1) pk1 bb1 pk2 sl
        unfolding substring_def Let_def a by (simp add: assign_cstr_def)
    qed
    have cs: "take n (drop l (content s)) = take n (drop l b)"
      using lr by (simp add: c n_def drop_take)
    have goal: "(\<exists>out. substring E left right s = Some (out, s) \<and>
           (let l = min left right; r = min (max left right) (len s) in
            if l < len s \<and> alloc_fails E (r - l) (String_empty E)
            then out = invalidate E (String_empty E)
            else valid E out \<and> content out = take (r - l) (drop l (content s))))
        \<longleftrightarrow> (\<exists>out. copy E (drop l b1) n (String_empty E) = Some out \<and>
           (if alloc_fails E n (String_empty E) then out = invalidate E (String_empty E)
            else valid E out \<and> content out = take n (drop l b1)))"
      unfolding sub Let_def l_def [symmetric] r_def [symmetric] n_def [symmetric]
      using True by (auto simp: cs tk split: bind_splits)
    from copy_valid [OF E ve cn nb] show ?thesis
      unfolding goal by (auto split: if_splits)
  qed
qed

theorem substring_range_witness:
  "env_ok esp8266 \<and> is_cstring esp8266 (SSO (c_str ''abcdef'' @ ''????'') 6)
   \<and> substring esp8266 2 4 (SSO (c_str ''abcdef'' @ ''????'') 6)
       = Some (SSO (c_str ''cd'' @ ''????????'') 2, SSO (c_str ''abcdef'' @ ''????'') 6)
   \<and> substring esp8266 4 2 (SSO (c_str ''abcdef'' @ ''????'') 6)
       = Some (SSO (c_str ''cd'' @ ''????????'') 2, SSO (c_str ''abcdef'' @ ''????'') 6)"
proof -
  have h: "env_ok esp8266" "is_cstring esp8266 (SSO (c_str ''abcdef'' @ ''????'') 6)"
    by (simp_all add: env_ok_def is_cstring_def content_def mem_defs op_defs)
  show ?thesis
    using h substring_range [OF h, of 2 4] substring_range [OF h, of 4 2]
    by (simp add: substring_def assign_cstr_def mem_defs op_defs upt_conv_Cons)
qed

text \<open>
  C7 as stated fails in two ways. A value with a NUL byte inside its content (made here
  by \<open>replace('c', '\\0')\<close> on \<open>"abcde"\<close>) is cut at that byte: \<open>substring(0, 5)\<close> returns
  \<open>"ab"\<close>. And when the allocation for the copy fails, the returned value is empty.
\<close>

theorem substring_range_counterexample:
  "String_cstr esp8266 (Some (c_str ''abcde'')) = Some (SSO (c_str ''abcde'' @ ''?????'') 5)
   \<and> replace_char CHR ''c'' NUL (SSO (c_str ''abcde'' @ ''?????'') 5)
       = Some (True, SSO (''ab'' @ NUL # c_str ''de'' @ ''?????'') 5)
   \<and> valid esp8266 (SSO (''ab'' @ NUL # c_str ''de'' @ ''?????'') 5)
   \<and> content (SSO (''ab'' @ NUL # c_str ''de'' @ ''?????'') 5) = ''ab'' @ NUL # ''de''
   \<and> substring esp8266 0 5 (SSO (''ab'' @ NUL # c_str ''de'' @ ''?????'') 5)
       = Some (SSO (c_str ''ab'' @ ''????????'') 2, SSO (''ab'' @ NUL # c_str ''de'' @ ''?????'') 5)
   \<and> String_cstr esp8266 (Some (c_str ''abcdefghijklmnop''))
       = Some (PTR (Some (c_str ''abcdefghijklmnop'' @ replicate 15 NUL)) 31 16)
   \<and> valid out_of_memory (PTR (Some (c_str ''abcdefghijklmnop'' @ replicate 15 NUL)) 31 16)
   \<and> substring out_of_memory 0 12 (PTR (Some (c_str ''abcdefghijklmnop'' @ replicate 15 NUL)) 31 16)
       = Some (SSO (NUL # ''??????????'') 0,
               PTR (Some (c_str ''abcdefghijklmnop'' @ replicate 15 NUL)) 31 16)
   \<and> content (SSO (NUL # ''??????????'') 0) = []"
  by (simp add: substring_def assign_cstr_def replace_char_def content_def mem_defs op_defs
      upt_conv_Cons replicate_numeral)

subsection \<open>C8: compareTo\<close>

text \<open>
  C8, as amended. For two values that are each without a buffer (invalid) or well-formed
  with no NUL byte inside the content, the sign of \<open>compareTo\<close> is the order of the two
  contents in the byte-wise lexicographic order (bytes compared as unsigned values, a
  proper prefix being smaller). So a value without content compares strictly below every
  value with content, two values without content compare equal, and the four ordering
  operators are the four comparisons of the result with zero.
\<close>

theorem compareTo_lexicographic:
  assumes a: "buffer a = None \<or> is_cstring E a" and b: "buffer b = None \<or> is_cstring E b"
  shows "\<exists>r. compareTo a b = Some r
           \<and> (r < 0 \<longleftrightarrow> content a < content b)
           \<and> (r = 0 \<longleftrightarrow> content a = content b)
           \<and> (0 < r \<longleftrightarrow> content b < content a)
           \<and> (content a = [] \<and> content b \<noteq> [] \<longrightarrow> r < 0)
           \<and> (content a = [] \<and> content b = [] \<longrightarrow> r = 0)
           \<and> operator_lt a b = Some (r < 0) \<and> operator_gt a b = Some (0 < r)
           \<and> operator_le a b = Some (r \<le> 0) \<and> operator_ge a b = Some (0 \<le> r)"
proof -
  have main: "\<exists>r. compareTo a b = Some r
           \<and> (r < 0 \<longleftrightarrow> content a < content b)
           \<and> (r = 0 \<longleftrightarrow> content a = content b)
           \<and> (0 < r \<longleftrightarrow> content b < content a)"
  proof (cases "buffer a")
    case None
    then have ca: "content a = []" by (simp add: content_def)
    show ?thesis
    proof (cases "buffer b \<noteq> None \<and> 0 < len b")
      case True
      with b have "is_cstring E b" by auto
      then obtain bb t where bb: "buffer b = Some bb" "bb = content b @ NUL # t"
        "NUL \<notin> set (content b)" "length (content b) = len b"
        by (rule cstring_buffer)
      with True obtain y ys where y: "content b = y # ys"
        by (cases "content b") auto
      with bb have "y \<noteq> NUL" by auto
      then have "0 < (of_char y :: nat)" by (rule of_char_pos)
      moreover have "compareTo a b = Some (0 - int (of_char y))"
        using None True bb y by (simp add: compareTo_def rd_def)
      ultimately show ?thesis using ca y by simp
    next
      case False
      then have "content b = []" by (auto simp: content_def split: option.splits)
      moreover have "compareTo a b = Some 0"
        using None False by (auto simp: compareTo_def split: option.splits)
      ultimately show ?thesis using ca by simp
    qed
  next
    case (Some ba)
    with a have "is_cstring E a" by auto
    then obtain ba' ta where ba: "buffer a = Some ba'" "ba' = content a @ NUL # ta"
      "NUL \<notin> set (content a)" "length (content a) = len a"
      by (rule cstring_buffer)
    show ?thesis
    proof (cases "buffer b")
      case None
      then have cb: "content b = []" by (simp add: content_def)
      show ?thesis
      proof (cases "0 < len a")
        case True
        with ba obtain x xs where x: "content a = x # xs"
          by (cases "content a") auto
        with ba have "x \<noteq> NUL" by auto
        then have "0 < (of_char x :: nat)" by (rule of_char_pos)
        moreover have "compareTo a b = Some (int (of_char x))"
          using None True ba x by (simp add: compareTo_def rd_def)
        ultimately show ?thesis using cb x by simp
      next
        case False
        with ba have "content a = []" by simp
        moreover have "compareTo a b = Some 0"
          using None False ba by (simp add: compareTo_def)
        ultimately show ?thesis using cb by simp
      qed
    next
      case (Some bb0)
      with b have "is_cstring E b" by auto
      then obtain bb tb where bb: "buffer b = Some bb" "bb = content b @ NUL # tb"
        "NUL \<notin> set (content b)" "length (content b) = len b"
        by (rule cstring_buffer)
      have "compareTo a b = strcmp (content a @ NUL # ta) (content b @ NUL # tb)"
        using ba bb by (simp add: compareTo_def)
      with strcmp_cstrings [OF ba(3) bb(3), of ta tb] show ?thesis by simp
    qed
  qed
  then obtain r where r: "compareTo a b = Some r" "r < 0 \<longleftrightarrow> content a < content b"
    "r = 0 \<longleftrightarrow> content a = content b" "0 < r \<longleftrightarrow> content b < content a"
    by blast
  have "content a = [] \<and> content b \<noteq> [] \<longrightarrow> r < 0"
    using r(2) by (cases "content b") auto
  moreover have "content a = [] \<and> content b = [] \<longrightarrow> r = 0"
    using r(3) by simp
  ultimately show ?thesis
    using r by (simp add: operator_lt_def operator_gt_def operator_le_def operator_ge_def)
qed

theorem compareTo_lexicographic_witness:
  "is_cstring esp8266 (String_empty esp8266)
   \<and> is_cstring esp8266 (SSO (c_str ''abc'' @ ''???????'') 3)
   \<and> is_cstring esp8266 (SSO (c_str ''abd'' @ ''???????'') 3)
   \<and> compareTo (String_empty esp8266) (SSO (c_str ''abc'' @ ''???????'') 3) = Some (- 97)
   \<and> compareTo (SSO (c_str ''abc'' @ ''???????'') 3) (SSO (c_str ''abd'' @ ''???????'') 3) = Some (- 1)
   \<and> compareTo (PTR None 0 0) (String_empty esp8266) = Some 0
   \<and> operator_lt (SSO (c_str ''abc'' @ ''???????'') 3) (SSO (c_str ''abd'' @ ''???????'') 3) = Some True"
proof -
  have h: "is_cstring esp8266 (String_empty esp8266)"
    "is_cstring esp8266 (SSO (c_str ''abc'' @ ''???????'') 3)"
    "is_cstring esp8266 (SSO (c_str ''abd'' @ ''???????'') 3)"
    "buffer (PTR None 0 0) = None"
    by (simp_all add: is_cstring_def content_def mem_defs op_defs upt_conv_Cons)
  show ?thesis
    using h
      compareTo_lexicographic [OF disjI2 disjI2, OF h(1) h(2)]
      compareTo_lexicographic [OF disjI2 disjI2, OF h(2) h(3)]
      compareTo_lexicographic [OF disjI1 disjI2, OF h(4) h(1)]
    by (simp add: compareTo_def operator_lt_def mem_defs op_defs upt_conv_Cons)
qed

text \<open>
  C8 as stated fails on a value with a NUL byte inside its content: after
  \<open>replace('a', '\\0')\<close> the value \<open>"a"\<close> has the length 1, and the empty value does not
  compare below it.
\<close>

theorem compareTo_counterexample:
  "String_cstr esp8266 (Some (c_str ''a'')) = Some (SSO (c_str ''a'' @ ''?????????'') 1)
   \<and> replace_char CHR ''a'' NUL (SSO (c_str ''a'' @ ''?????????'') 1)
       = Some (True, SSO (NUL # NUL # ''?????????'') 1)
   \<and> valid esp8266 (SSO (NUL # NUL # ''?????????'') 1)
   \<and> len (SSO (NUL # NUL # ''?????????'') 1) = 1
   \<and> len (String_empty esp8266) = 0
   \<and> compareTo (String_empty esp8266) (SSO (NUL # NUL # ''?????????'') 1) = Some 0
   \<and> operator_lt (String_empty esp8266) (SSO (NUL # NUL # ''?????????'') 1) = Some False"
  by (simp add: compareTo_def operator_lt_def replace_char_def mem_defs op_defs upt_conv_Cons)

subsection \<open>C9: equalsConstantTime\<close>

text \<open>
  C9, as amended. When the content of the first value holds no NUL byte and both values
  are well-formed, \<open>equalsConstantTime\<close> returns 1 exactly when the two contents are equal
  (same length, same bytes) and 0 otherwise. For equal non-zero lengths the loop runs
  once for every byte position of the content, wherever the contents differ: the two
  counters it returns are the number of agreeing and the number of differing positions,
  and they add up to the length.
\<close>

theorem equalsConstantTime_scans_all:
  assumes E: "env_ok E" and a: "is_cstring E a" and b: "valid E b"
  shows "equalsConstantTime a b = Some (if content a = content b then 1 else 0)
       \<and> (len a = len b \<and> len a \<noteq> 0 \<longrightarrow>
            equalsConstantTime_loop (the (buffer a)) (the (buffer b)) 0 0
              = Some (matches (content a) (content b), mismatches (content a) (content b))
          \<and> matches (content a) (content b) + mismatches (content a) (content b) = len a)"
proof -
  from a obtain ba ta where ba: "buffer a = Some ba" "ba = content a @ NUL # ta"
    "NUL \<notin> set (content a)" "length (content a) = len a"
    by (rule cstring_buffer)
  from b obtain bb where bb: "buffer b = Some bb" "length bb = capacity E b + 1"
    "len b \<le> capacity E b" "rd bb (len b) = Some NUL"
    by (rule valid_buffer)
  then have cb: "content b = take (len b) bb" "length (content b) = len b"
    by (simp_all add: content_def)
  from a have "valid E a" by (simp add: is_cstring_def)
  with E have la: "len a < 65536" by (rule valid_len_bound)
  show ?thesis
  proof (cases "len a = len b")
    case False
    then have "content a \<noteq> content b"
      using ba(4) cb(2) by auto
    with False show ?thesis by (simp add: equalsConstantTime_def)
  next
    case True
    have z: "zip (content a) bb = zip (content a) (content b)"
      using True ba(4) cb zip_take_length [of "content a" bb] by simp
    have m: "matches (content a) bb = matches (content a) (content b)"
      "mismatches (content a) bb = mismatches (content a) (content b)"
      by (simp_all add: matches_def mismatches_def z)
    have "equalsConstantTime_loop (content a @ NUL # ta) bb 0 0
            = Some (0 + matches (content a) bb, 0 + mismatches (content a) bb)"
      using ba bb True la by (intro loop_cstring) auto
    then have loop: "equalsConstantTime_loop ba bb 0 0
            = Some (matches (content a) (content b), mismatches (content a) (content b))"
      using ba(2) m by simp
    have sum: "matches (content a) (content b) + mismatches (content a) (content b) = len a"
      using matches_mismatches [of "content a" "content b"] True ba(4) cb(2) by simp
    have eq: "content a = content b \<longleftrightarrow> mismatches (content a) (content b) = 0"
      using mismatches_zero [of "content a" "content b"] True ba(4) cb(2) by simp
    show ?thesis
    proof (cases "len a = 0")
      case True
      with \<open>len a = len b\<close> ba(4) cb(2) have "content a = content b" by simp
      with True \<open>len a = len b\<close> show ?thesis by (simp add: equalsConstantTime_def)
    next
      case False
      have "equalsConstantTime a b =
          Some (and (if matches (content a) (content b) = len a then 1 else 0)
                    (if mismatches (content a) (content b) = 0 then 1 else 0))"
        using False True ba(1) bb(1) loop by (simp add: equalsConstantTime_def)
      also have "\<dots> = Some (if content a = content b then 1 else 0)"
        using sum eq by auto
      finally show ?thesis
        using loop sum ba(1) bb(1) by simp
    qed
  qed
qed

theorem equalsConstantTime_scans_all_witness:
  "env_ok esp8266 \<and> is_cstring esp8266 (SSO (c_str ''abc'' @ ''???????'') 3)
   \<and> valid esp8266 (SSO (c_str ''xbc'' @ ''???????'') 3)
   \<and> valid esp8266 (SSO (c_str ''abx'' @ ''???????'') 3)
   \<and> equalsConstantTime (SSO (c_str ''abc'' @ ''???????'') 3) (SSO (c_str ''xbc'' @ ''???????'') 3)
       = Some 0
   \<and> equalsConstantTime_loop (c_str ''abc'' @ ''???????'') (c_str ''xbc'' @ ''???????'') 0 0
       = Some (2, 1)
   \<and> equalsConstantTime_loop (c_str ''abc'' @ ''???????'') (c_str ''abx'' @ ''???????'') 0 0
       = Some (2, 1)
   \<and> equalsConstantTime (SSO (c_str ''abc'' @ ''???????'') 3) (SSO (c_str ''abc'' @ ''???????'') 3)
       = Some 1"
proof -
  have h: "env_ok esp8266" "is_cstring esp8266 (SSO (c_str ''abc'' @ ''???????'') 3)"
    "valid esp8266 (SSO (c_str ''xbc'' @ ''???????'') 3)"
    "valid esp8266 (SSO (c_str ''abx'' @ ''???????'') 3)"
    "valid esp8266 (SSO (c_str ''abc'' @ ''???????'') 3)"
    by (simp_all add: env_ok_def is_cstring_def content_def mem_defs op_defs)
  show ?thesis
    using h equalsConstantTime_scans_all [OF h(1) h(2) h(3)]
      equalsConstantTime_scans_all [OF h(1) h(2) h(4)]
      equalsConstantTime_scans_all [OF h(1) h(2) h(5)]
    by (simp add: equalsConstantTime_def content_def matches_def mismatches_def mem_defs op_defs)
qed

text \<open>
  C9 as stated fails on a value with a NUL byte inside its content: the loop stops at
  that byte, so a value compared with itself is reported as different.
\<close>

theorem equalsConstantTime_counterexample:
  "String_cstr esp8266 (Some (c_str ''abc'')) = Some (SSO (c_str ''abc'' @ ''???????'') 3)
   \<and> replace_char CHR ''b'' NUL (SSO (c_str ''abc'' @ ''???????'') 3)
       = Some (True, SSO (''a'' @ NUL # c_str ''c'' @ ''???????'') 3)
   \<and> valid esp8266 (SSO (''a'' @ NUL # c_str ''c'' @ ''???????'') 3)
   \<and> equalsConstantTime (SSO (''a'' @ NUL # c_str ''c'' @ ''???????'') 3)
         (SSO (''a'' @ NUL # c_str ''c'' @ ''???????'') 3) = Some 0
   \<and> equalsConstantTime_loop (''a'' @ NUL # c_str ''c'' @ ''???????'')
         (''a'' @ NUL # c_str ''c'' @ ''???????'') 0 0 = Some (1, 0)"
  by (simp add: equalsConstantTime_def replace_char_def mem_defs op_defs upt_conv_Cons)

subsection \<open>C10: the leading scan of the character-set trim\<close>

text \<open>
  C10. The leading scan of the character-set trim on the value \<open>"xx"\<close> with the set
  \<open>"x"\<close>: \<open>memchr_P\<close> searches \<open>charLen + 1 = 2\<close> bytes of the set, so the terminator at
  index 2 is found in it, and the scan goes on to index 3. \<open>remove(0, 3)\<close> is called on a
  value of length 2.
\<close>

theorem trim_left_scan_past_terminator:
  "String_cstr esp8266 (Some (c_str ''xx'')) = Some (SSO (c_str ''xx'' @ ''????????'') 2)
   \<and> len (SSO (c_str ''xx'' @ ''????????'') 2) = 2
   \<and> memchr_P (c_str ''x'') NUL (u32 (1 + 1)) = Some True
   \<and> trim_left_loop (c_str ''x'') (u32 (1 + 1)) (c_str ''xx'' @ ''????????'') 0 = Some 3
   \<and> String_trim LEFT (Some (c_str ''x'')) 1 (SSO (c_str ''xx'' @ ''????????'') 2)
       = String_remove 0 3 (SSO (c_str ''xx'' @ ''????????'') 2)
   \<and> String_remove 0 3 (SSO (c_str ''xx'' @ ''????????'') 2)
       = Some (SSO (NUL # c_str ''x'' @ ''????????'') 0)"
  by (simp add: trim_defs mem_defs op_defs upt_conv_Cons)

end
